theory Spec2Isabelle
  imports Complex_Main
begin

section \<open>JavaScript strings\<close>

text \<open>
  A JavaScript string is a sequence of UTF-16 code units. The regular expressions of
  \<^verbatim>\<open>server-services-ocr.js\<close> carry no \<^verbatim>\<open>u\<close> flag, so they work on code
  units as well. A code unit is modelled by its numeric value; the Tamil block
  (U+0B80 to U+0BFF) and the rupee sign (U+20B9) are single code units.
\<close>

type_synonym jschar = nat
type_synonym jsstring = "nat list"

definition js :: "string \<Rightarrow> jsstring" where
  "js s = map of_char s"

definition sp :: jschar where "sp = 32"
definition nl :: jschar where "nl = 10"

text \<open>White space and line terminators: what \<^verbatim>\<open>\s\<close> matches and \<^verbatim>\<open>trim()\<close> strips.\<close>

definition is_space :: "jschar \<Rightarrow> bool" where
  "is_space c \<longleftrightarrow>
     (9 \<le> c \<and> c \<le> 13) \<or> c = 32 \<or> c = 160 \<or> c = 5760 \<or> (8192 \<le> c \<and> c \<le> 8202) \<or>
     c = 8232 \<or> c = 8233 \<or> c = 8239 \<or> c = 8287 \<or> c = 12288 \<or> c = 65279"

definition is_digit :: "jschar \<Rightarrow> bool" where
  "is_digit c \<longleftrightarrow> 48 \<le> c \<and> c \<le> 57"

definition is_upper :: "jschar \<Rightarrow> bool" where
  "is_upper c \<longleftrightarrow> 65 \<le> c \<and> c \<le> 90"

definition is_lower :: "jschar \<Rightarrow> bool" where
  "is_lower c \<longleftrightarrow> 97 \<le> c \<and> c \<le> 122"

definition is_alpha :: "jschar \<Rightarrow> bool" where
  "is_alpha c \<longleftrightarrow> is_upper c \<or> is_lower c"

definition is_alnum :: "jschar \<Rightarrow> bool" where
  "is_alnum c \<longleftrightarrow> is_alpha c \<or> is_digit c"

text \<open>\<^verbatim>\<open>\w\<close>: letters, digits and the underscore.\<close>

definition is_word :: "jschar \<Rightarrow> bool" where
  "is_word c \<longleftrightarrow> is_alnum c \<or> c = 95"

definition js_trim :: "jsstring \<Rightarrow> jsstring" where
  "js_trim s = rev (dropWhile is_space (rev (dropWhile is_space s)))"

fun js_join :: "jsstring \<Rightarrow> jsstring list \<Rightarrow> jsstring" where
  "js_join sep [] = []"
| "js_join sep [x] = x"
| "js_join sep (x # y # ys) = x @ sep @ js_join sep (y # ys)"

text \<open>\<^verbatim>\<open>s.split(d)\<close> for a one-character separator; the empty string splits into \<^verbatim>\<open>[""]\<close>.\<close>

fun js_split :: "jschar \<Rightarrow> jsstring \<Rightarrow> jsstring list" where
  "js_split d [] = [[]]"
| "js_split d (c # cs) =
     (if c = d then [] # js_split d cs
      else (case js_split d cs of [] \<Rightarrow> [[c]] | x # xs \<Rightarrow> (c # x) # xs))"

text \<open>\<^verbatim>\<open>x || null\<close> on a string: the empty string is falsy.\<close>

definition or_null :: "jsstring \<Rightarrow> jsstring option" where
  "or_null s = (if s = [] then None else Some s)"

text \<open>\<^verbatim>\<open>[...new Set(xs)]\<close>: the first occurrence of every element, in order.\<close>

fun dedup :: "'a list \<Rightarrow> 'a list" where
  "dedup [] = []"
| "dedup (x # xs) = x # dedup (filter (\<lambda>y. y \<noteq> x) xs)"

section \<open>Recognition data\<close>

text \<open>
  What Tesseract returns, as far as the code reads it: results of the shape the library
  documents, every word with a text and a numeric confidence. A confidence is a double,
  modelled by its real value (see the section on scoring for the arithmetic); a
  \<^verbatim>\<open>NaN\<close> fails both comparisons the code makes, as any value below 45 does. A
  missing \<^verbatim>\<open>words\<close> or \<^verbatim>\<open>lines\<close> array is
  the empty list (the code treats both alike), a missing \<^verbatim>\<open>text\<close> is \<open>None\<close>.
\<close>

record ocr_word =
  wtext :: jsstring
  confidence :: real

record ocr_line =
  lwords :: "ocr_word list"

record ocr_data =
  dlines :: "ocr_line list"
  dwords :: "ocr_word list"
  dtext :: "jsstring option"

section \<open>buildCleanText\<close>

definition MIN_CONF :: real where
  "MIN_CONF = 45"

definition goodWords :: "ocr_line \<Rightarrow> ocr_word list" where
  "goodWords li =
     filter (\<lambda>w. confidence w \<ge> MIN_CONF \<and> length (js_trim (wtext w)) > 0) (lwords li)"

text \<open>
  The body of the loop over \<^verbatim>\<open>data.lines\<close>: \<open>None\<close> is a \<^verbatim>\<open>continue\<close> (or a
  line text of length 0), \<open>Some t\<close> is \<^verbatim>\<open>cleanLines.push(t)\<close>. The keep ratio is a
  quotient of two array lengths compared with the literal 0.4; for array lengths the
  double-precision comparison agrees with the exact one, which is the one written here.
\<close>

definition clean_line :: "ocr_line \<Rightarrow> jsstring option" where
  "clean_line li =
     (if lwords li = [] then None
      else let good = goodWords li in
        if length good = 0 then None
        else if real (length good) / real (length (lwords li)) < 0.4 then None
        else let lineText = js_trim (js_join [sp] (map wtext good)) in
          if length lineText > 0 then Some lineText else None)"

definition buildCleanText :: "ocr_data \<Rightarrow> jsstring" where
  "buildCleanText d =
     (if dlines d = [] then (case dtext d of None \<Rightarrow> [] | Some t \<Rightarrow> t)
      else js_join [nl] (List.map_filter clean_line (dlines d)))"

section \<open>Scoring and selecting a strategy\<close>

record scored =
  sdata :: ocr_data
  score :: real
  sname :: jsstring

definition strategy_names :: "jsstring list" where
  "strategy_names = [js ''high-contrast'', js ''clean-bw'', js ''gentle'']"

subsection \<open>Double-precision arithmetic\<close>

text \<open>
  JavaScript numbers are IEEE 754 binary64 values: 53 significant bits, the smallest
  positive value 2^(-1074), every finite value below 2^1024 in magnitude. A finite
  double is modelled by the real number it denotes, and the real 2^1024 stands for
  \<^verbatim>\<open>Infinity\<close>. The sum and the quotient of two doubles are the exact sum and the
  exact quotient rounded to the nearest double, ties to the even significand; what
  rounds to 2^1024 or beyond is \<^verbatim>\<open>Infinity\<close>.
\<close>

text \<open>The number of binary digits of \<open>n\<close>.\<close>

fun bit_length :: "nat \<Rightarrow> nat" where
  "bit_length n = (if n = 0 then 0 else Suc (bit_length (n div 2)))"

definition round_half_even :: "real \<Rightarrow> int" where
  "round_half_even q =
     (let f = \<lfloor>q\<rfloor>; d = q - of_int f in
      if d < 1 / 2 then f else if 1 / 2 < d then f + 1 else if even f then f else f + 1)"

text \<open>The distance between neighbouring doubles at the magnitude of \<open>x\<close>.\<close>

definition ulp :: "real \<Rightarrow> real" where
  "ulp x =
     (if 1 \<le> \<bar>x\<bar> then 2 ^ bit_length (nat \<lfloor>\<bar>x\<bar>\<rfloor>) / 2 ^ 53
      else let b = bit_length (nat \<lfloor>\<bar>x\<bar> * 2 ^ 1074\<rfloor>) in
        if b \<le> 53 then 1 / 2 ^ 1074 else 2 ^ (b - 53) / 2 ^ 1074)"

definition infinity :: real where
  "infinity = 2 ^ 1024"

definition fl_round :: "real \<Rightarrow> real" where
  "fl_round x =
     (let r = of_int (round_half_even (\<bar>x\<bar> / ulp x)) * ulp x in
      if infinity \<le> r then sgn x * infinity else sgn x * r)"

text \<open>\<^verbatim>\<open>x + y\<close>, where not both are infinite with opposite signs.\<close>

definition fl_add :: "real \<Rightarrow> real \<Rightarrow> real" where
  "fl_add x y = fl_round (x + y)"

text \<open>\<^verbatim>\<open>x / y\<close> for a finite \<open>y\<close> above 0.\<close>

definition fl_div :: "real \<Rightarrow> real \<Rightarrow> real" where
  "fl_div x y = (if infinity \<le> \<bar>x\<bar> then sgn x * infinity else fl_round (x / y))"

subsection \<open>The score of a recognition result\<close>

definition avgConf :: "ocr_data \<Rightarrow> real" where
  "avgConf d =
     (let good = filter (\<lambda>w. confidence w > 50) (dwords d) in
      if length good > 0
      then fl_div (foldl (\<lambda>s w. fl_add s (confidence w)) 0 good) (real (length good))
      else 0)"

definition score_results :: "ocr_data list \<Rightarrow> scored list" where
  "score_results rs =
     map (\<lambda>(r, i). \<lparr>sdata = r, score = avgConf r, sname = strategy_names ! i\<rparr>)
       (zip rs [0..<length rs])"

text \<open>
  \<^verbatim>\<open>scored.sort((a, b) => b.score - a.score)\<close>. The difference of two doubles is
  positive, zero or negative as their exact difference is (no difference of two distinct
  doubles rounds to zero), and \<^verbatim>\<open>Infinity - Infinity\<close> is \<^verbatim>\<open>NaN\<close>, which the
  sort takes for zero: the comparison is the one of the reals that stand for the scores.
  \<^verbatim>\<open>Array.prototype.sort\<close> is stable, and a stable sort by descending score has one
  result, the one of the stable insertion sort on the negated score.
\<close>

definition sort_scored :: "scored list \<Rightarrow> scored list" where
  "sort_scored sc = sort_key (\<lambda>a. - score a) sc"

text \<open>\<^verbatim>\<open>scored[0]\<close>; \<open>None\<close> is \<^verbatim>\<open>undefined\<close>, on which \<^verbatim>\<open>best.name\<close> throws.\<close>

definition pick_best :: "scored list \<Rightarrow> scored option" where
  "pick_best sc = (case sort_scored sc of [] \<Rightarrow> None | b # _ \<Rightarrow> Some b)"

section \<open>Regular expressions\<close>

text \<open>
  The fragment of JavaScript regular expressions the file uses: single characters and
  character classes, sequence, alternation, the greedy optional group, greedy counted
  repetition of a class, and the word-boundary assertion. Capture groups only group
  (nothing refers back to them). Matching is by backtracking: \<open>rx_match r pv s\<close> lists
  every way \<open>r\<close> can match a prefix of \<open>s\<close>, in the order in which the backtracking
  matcher tries them, as the pair of the last character before the end of the match
  (which the word-boundary assertion reads; \<open>pv\<close> is the character before \<open>s\<close>) and
  the rest of the input. The match JavaScript reports is the first of the list.
\<close>

datatype rx =
    Eps
  | Chr "jschar \<Rightarrow> bool"
  | Seq rx rx
  | Alt rx rx
  | Opt rx
  | Rep "jschar \<Rightarrow> bool" nat "nat option"
  | WordB

definition at_word_boundary :: "jschar option \<Rightarrow> jsstring \<Rightarrow> bool" where
  "at_word_boundary pv s \<longleftrightarrow>
     (case pv of None \<Rightarrow> False | Some c \<Rightarrow> is_word c) \<noteq>
     (case s of [] \<Rightarrow> False | c # _ \<Rightarrow> is_word c)"

fun rx_match :: "rx \<Rightarrow> jschar option \<Rightarrow> jsstring \<Rightarrow> (jschar option \<times> jsstring) list" where
  "rx_match Eps pv s = [(pv, s)]"
| "rx_match (Chr p) pv s = (case s of [] \<Rightarrow> [] | c # cs \<Rightarrow> if p c then [(Some c, cs)] else [])"
| "rx_match (Seq a b) pv s = concat (map (\<lambda>(pv', s'). rx_match b pv' s') (rx_match a pv s))"
| "rx_match (Alt a b) pv s = rx_match a pv s @ rx_match b pv s"
| "rx_match (Opt a) pv s = rx_match a pv s @ [(pv, s)]"
| "rx_match (Rep p m n) pv s =
     (let k = length (takeWhile p s);
          hi = (case n of None \<Rightarrow> k | Some n' \<Rightarrow> min k n')
      in map (\<lambda>j. (if j = 0 then pv else Some (s ! (j - 1)), drop j s)) (rev [m..<Suc hi]))"
| "rx_match WordB pv s = (if at_word_boundary pv s then [(pv, s)] else [])"

text \<open>
  A global scan, as \<^verbatim>\<open>matchAll\<close> and \<^verbatim>\<open>replace\<close> with a \<^verbatim>\<open>g\<close> regular expression do
  it: at every position not inside the previous match the leftmost match is taken; an
  empty match advances by one character. The scan yields the characters outside the
  matches (\<open>Inl\<close>) and the matched substrings (\<open>Inr\<close>) in order. \<open>skip\<close> counts the
  characters of the current match still to be passed.
\<close>

fun rx_scan :: "rx \<Rightarrow> jschar option \<Rightarrow> jsstring \<Rightarrow> nat \<Rightarrow> (jschar + jsstring) list" where
  "rx_scan r pv [] skip =
     (if skip = 0 then (case rx_match r pv [] of [] \<Rightarrow> [] | _ # _ \<Rightarrow> [Inr []]) else [])"
| "rx_scan r pv (c # cs) skip =
     (if skip > 0 then rx_scan r (Some c) cs (skip - 1)
      else (case rx_match r pv (c # cs) of
              [] \<Rightarrow> Inl c # rx_scan r (Some c) cs 0
            | (pv', s') # _ \<Rightarrow>
                (let n = Suc (length cs) - length s' in
                 if n = 0 then Inr [] # Inl c # rx_scan r (Some c) cs 0
                 else Inr (take n (c # cs)) # rx_scan r (Some c) cs (n - 1))))"

definition matchAll :: "rx \<Rightarrow> jsstring \<Rightarrow> jsstring list" where
  "matchAll r s = concat (map (case_sum (\<lambda>c. []) (\<lambda>m. [m])) (rx_scan r None s 0))"

definition replaceAll :: "rx \<Rightarrow> jsstring \<Rightarrow> jsstring \<Rightarrow> jsstring" where
  "replaceAll r rep s = concat (map (case_sum (\<lambda>c. [c]) (\<lambda>m. rep)) (rx_scan r None s 0))"

text \<open>\<^verbatim>\<open>r.test(s)\<close> for a regular expression without the \<^verbatim>\<open>g\<close> flag: a match at some position.\<close>

fun rx_search :: "rx \<Rightarrow> jschar option \<Rightarrow> jsstring \<Rightarrow> bool" where
  "rx_search r pv [] = (rx_match r pv [] \<noteq> [])"
| "rx_search r pv (c # cs) = (rx_match r pv (c # cs) \<noteq> [] \<or> rx_search r (Some c) cs)"

definition rx_test :: "rx \<Rightarrow> jsstring \<Rightarrow> bool" where
  "rx_test r s = rx_search r None s"

subsection \<open>Building expressions\<close>

definition is_char :: "jschar \<Rightarrow> jschar \<Rightarrow> bool" where
  "is_char c x \<longleftrightarrow> x = c"

definition is_one_of :: "jsstring \<Rightarrow> jschar \<Rightarrow> bool" where
  "is_one_of cs x \<longleftrightarrow> x \<in> set cs"

text \<open>
  A pattern character under the \<^verbatim>\<open>i\<close> flag: both cases of an ASCII letter. (Without the
  \<^verbatim>\<open>u\<close> flag no character outside ASCII is folded onto an ASCII letter.)
\<close>

definition ci_char :: "jschar \<Rightarrow> jschar \<Rightarrow> bool" where
  "ci_char c x \<longleftrightarrow> x = c \<or> (is_lower c \<and> x + 32 = c) \<or> (is_upper c \<and> x = c + 32)"

fun rx_seq :: "rx list \<Rightarrow> rx" where
  "rx_seq [] = Eps"
| "rx_seq [r] = r"
| "rx_seq (r # rs) = Seq r (rx_seq rs)"

fun rx_alts :: "rx list \<Rightarrow> rx" where
  "rx_alts [] = Chr (\<lambda>c. False)"
| "rx_alts [r] = r"
| "rx_alts (r # rs) = Alt r (rx_alts rs)"

definition rx_lit :: "string \<Rightarrow> rx" where
  "rx_lit s = rx_seq (map (\<lambda>c. Chr (is_char c)) (js s))"

definition rx_lit_ci :: "string \<Rightarrow> rx" where
  "rx_lit_ci s = rx_seq (map (\<lambda>c. Chr (ci_char c)) (js s))"

subsection \<open>Two structural properties of expressions\<close>

text \<open>An expression without the word-boundary assertion matches without looking behind.\<close>

primrec wordb_free :: "rx \<Rightarrow> bool" where
  "wordb_free Eps = True"
| "wordb_free (Chr p) = True"
| "wordb_free (Seq a b) = (wordb_free a \<and> wordb_free b)"
| "wordb_free (Alt a b) = (wordb_free a \<and> wordb_free b)"
| "wordb_free (Opt a) = wordb_free a"
| "wordb_free (Rep p m n) = True"
| "wordb_free WordB = False"

text \<open>\<open>rx_avoids c r\<close>: no character class of \<open>r\<close> accepts \<open>c\<close>, and \<open>r\<close> has no assertion.\<close>

primrec rx_avoids :: "jschar \<Rightarrow> rx \<Rightarrow> bool" where
  "rx_avoids c Eps = True"
| "rx_avoids c (Chr p) = (\<not> p c)"
| "rx_avoids c (Seq a b) = (rx_avoids c a \<and> rx_avoids c b)"
| "rx_avoids c (Alt a b) = (rx_avoids c a \<and> rx_avoids c b)"
| "rx_avoids c (Opt a) = rx_avoids c a"
| "rx_avoids c (Rep p m n) = (\<not> p c)"
| "rx_avoids c WordB = False"

section \<open>parseOcrText\<close>

subsection \<open>The regular expressions of the parser\<close>

definition is_tamil :: "jschar \<Rightarrow> bool" where
  "is_tamil c \<longleftrightarrow> 2944 \<le> c \<and> c \<le> 3071"

text \<open>
  The characters the first \<^verbatim>\<open>replace\<close> keeps: the Tamil block, ASCII letters and
  digits, the space, the newline, and \<^verbatim>\<open>. , - : / ( ) % $ @ # & !\<close> with the rupee
  sign (code unit 8377, U+20B9).
\<close>

definition keep_char :: "jschar \<Rightarrow> bool" where
  "keep_char c \<longleftrightarrow>
     is_tamil c \<or> is_lower c \<or> is_upper c \<or> is_digit c \<or> c = sp \<or> c = nl \<or>
     is_one_of (js ''.,-:/()%'') c \<or> c = 8377 \<or> is_one_of (js ''$@#&!'') c"

definition space_or_dash :: "jschar \<Rightarrow> bool" where
  "space_or_dash c \<longleftrightarrow> is_space c \<or> c = 45"

definition space_dash_dot :: "jschar \<Rightarrow> bool" where
  "space_dash_dot c \<longleftrightarrow> is_space c \<or> c = 45 \<or> c = 46"

text \<open>
  \<^verbatim>\<open>/(\+?91[\s\-]?)?[6-9]\d{9}|(\+?\d{1,3}[\s\-]?)?(\(?\d{2,4}\)?[\s\-.]?)(\d{3,5}[\s\-.]?\d{3,5})/g\<close>
\<close>

definition phoneRegex :: rx where
  "phoneRegex =
     Alt
       (rx_seq [Opt (rx_seq [Opt (rx_lit ''+''), rx_lit ''91'', Opt (Chr space_or_dash)]),
                Chr (\<lambda>c. 54 \<le> c \<and> c \<le> 57), Rep is_digit 9 (Some 9)])
       (rx_seq [Opt (rx_seq [Opt (rx_lit ''+''), Rep is_digit 1 (Some 3), Opt (Chr space_or_dash)]),
                rx_seq [Opt (rx_lit ''(''), Rep is_digit 2 (Some 4), Opt (rx_lit '')''),
                        Opt (Chr space_dash_dot)],
                rx_seq [Rep is_digit 3 (Some 5), Opt (Chr space_dash_dot),
                    Rep is_digit 3 (Some 5)]])"

text \<open>\<^verbatim>\<open>/[a-zA-Z0-9._%+\-]+@[a-zA-Z0-9.\-]+\.[a-zA-Z]{2,}/g\<close>\<close>

definition email_local :: "jschar \<Rightarrow> bool" where
  "email_local c \<longleftrightarrow> is_alnum c \<or> is_one_of (js ''._%+-'') c"

definition email_domain :: "jschar \<Rightarrow> bool" where
  "email_domain c \<longleftrightarrow> is_alnum c \<or> is_one_of (js ''.-'') c"

definition emailRegex :: rx where
  "emailRegex =
     rx_seq [Rep email_local 1 None, rx_lit ''@'', Rep email_domain 1 None, rx_lit ''.'',
             Rep is_alpha 2 None]"

text \<open>\<^verbatim>\<open>/(https?:\/\/[^\s]+)|(www\.[a-zA-Z0-9\-]+\.[a-zA-Z]{2,}[^\s]*)/g\<close>\<close>

definition non_space :: "jschar \<Rightarrow> bool" where
  "non_space c \<longleftrightarrow> \<not> is_space c"

definition host_char :: "jschar \<Rightarrow> bool" where
  "host_char c \<longleftrightarrow> is_alnum c \<or> c = 45"

definition urlRegex :: rx where
  "urlRegex =
     Alt
       (rx_seq [rx_lit ''http'', Opt (rx_lit ''s''), rx_lit ''://'', Rep non_space 1 None])
       (rx_seq [rx_lit ''www.'', Rep host_char 1 None, rx_lit ''.'', Rep is_alpha 2 None,
                Rep non_space 0 None])"

text \<open>
  \<^verbatim>\<open>/\b(street|st\.?|road|rd\.?|avenue|ave\.?|lane|nagar|salai|marg|chowk|block|sector|plot|no\.?|floor|building|bldg|colony|layout|cross|main|bypass|highway|district|taluk|village)\b/i\<close>
\<close>

definition addressKeywords :: rx where
  "addressKeywords =
     rx_seq [WordB,
       rx_alts [rx_lit_ci ''street'', Seq (rx_lit_ci ''st'') (Opt (rx_lit ''.'')),
         rx_lit_ci ''road'', Seq (rx_lit_ci ''rd'') (Opt (rx_lit ''.'')),
         rx_lit_ci ''avenue'', Seq (rx_lit_ci ''ave'') (Opt (rx_lit ''.'')),
         rx_lit_ci ''lane'', rx_lit_ci ''nagar'', rx_lit_ci ''salai'', rx_lit_ci ''marg'',
         rx_lit_ci ''chowk'', rx_lit_ci ''block'', rx_lit_ci ''sector'', rx_lit_ci ''plot'',
         Seq (rx_lit_ci ''no'') (Opt (rx_lit ''.'')), rx_lit_ci ''floor'',
         rx_lit_ci ''building'', rx_lit_ci ''bldg'', rx_lit_ci ''colony'', rx_lit_ci ''layout'',
         rx_lit_ci ''cross'', rx_lit_ci ''main'', rx_lit_ci ''bypass'', rx_lit_ci ''highway'',
         rx_lit_ci ''district'', rx_lit_ci ''taluk'', rx_lit_ci ''village''],
       WordB]"

subsection \<open>The steps of the parser\<close>

text \<open>
  \<^verbatim>\<open>raw.replace(/[^...]/g, "").replace(/\t/g, " ").replace(/[ ]{2,}/g, " ")
     .replace(/\n{3,}/g, "\n\n").trim()\<close>
\<close>

definition cleaned_of :: "jsstring \<Rightarrow> jsstring" where
  "cleaned_of raw =
     js_trim
       (replaceAll (Rep (is_char nl) 3 None) [nl, nl]
         (replaceAll (Rep (is_char sp) 2 None) [sp]
           (replaceAll (Chr (is_char 9)) [sp]
             (replaceAll (Chr (\<lambda>c. \<not> keep_char c)) [] raw))))"

text \<open>\<^verbatim>\<open>cleaned.split("\n").map((l) => l.trim()).filter((l) => l.length > 0)\<close>\<close>

definition lines_of :: "jsstring \<Rightarrow> jsstring list" where
  "lines_of cleaned = filter (\<lambda>l. length l > 0) (map js_trim (js_split nl cleaned))"

definition digit_count :: "jsstring \<Rightarrow> nat" where
  "digit_count p = length (replaceAll (Chr (\<lambda>c. \<not> is_digit c)) [] p)"

definition phones_of :: "jsstring \<Rightarrow> jsstring list" where
  "phones_of cleaned =
     filter (\<lambda>p. digit_count p \<ge> 7 \<and> digit_count p \<le> 15)
       (map (\<lambda>m. replaceAll (Rep is_space 1 None) [sp] (js_trim m)) (matchAll phoneRegex cleaned))"

definition emails_of :: "jsstring \<Rightarrow> jsstring list" where
  "emails_of cleaned = matchAll emailRegex cleaned"

definition urls_of :: "jsstring \<Rightarrow> jsstring list" where
  "urls_of cleaned = matchAll urlRegex cleaned"

definition is_address_line :: "jsstring \<Rightarrow> bool" where
  "is_address_line l \<longleftrightarrow> rx_test addressKeywords l \<and> rx_test (Chr is_digit) l"

definition addressLines_of :: "jsstring list \<Rightarrow> jsstring list" where
  "addressLines_of ls = filter is_address_line ls"

text \<open>The \<^verbatim>\<open>map\<close> step of \<^verbatim>\<open>otherLines\<close>: inline phone numbers, emails and urls are cut out.\<close>

definition strip_inline :: "jsstring \<Rightarrow> jsstring" where
  "strip_inline line =
     js_trim
       (replaceAll (Rep (is_char sp) 2 None) [sp]
         (replaceAll urlRegex []
           (replaceAll emailRegex []
             (replaceAll phoneRegex [] line))))"

text \<open>The first \<^verbatim>\<open>filter\<close> step of \<^verbatim>\<open>otherLines\<close>, with the three sets of trimmed strings.\<close>

definition not_extracted :: "jsstring list \<Rightarrow> jsstring list \<Rightarrow> jsstring list \<Rightarrow> jsstring \<Rightarrow> bool" where
  "not_extracted addressLines emails urls line \<longleftrightarrow>
     (if js_trim line \<in> set (map js_trim addressLines) then False
      else if js_trim line \<in> set (map js_trim emails) then False
      else if js_trim line \<in> set (map js_trim urls) then False
      else True)"

definition otherLines_of :: "jsstring list \<Rightarrow> jsstring list \<Rightarrow> jsstring list \<Rightarrow> jsstring list \<Rightarrow>
    jsstring list" where
  "otherLines_of ls addressLines emails urls =
     filter (\<lambda>l. length l > 1)
       (map strip_inline (filter (not_extracted addressLines emails urls) ls))"

record parsed =
  ocr_text :: "jsstring option"
  ocr_address :: "jsstring option"
  ocr_contact_number :: "jsstring option"
  ocr_email :: "jsstring option"
  ocr_url :: "jsstring option"
  other_text :: "jsstring option"

definition parseOcrText :: "jsstring \<Rightarrow> parsed" where
  "parseOcrText raw =
     (if raw = [] then
        \<lparr>ocr_text = None, ocr_address = None, ocr_contact_number = None, ocr_email = None,
         ocr_url = None, other_text = None\<rparr>
      else
        let cleaned = cleaned_of raw;
            ls = lines_of cleaned;
            formattedText = js_join [nl] ls;
            phones = phones_of cleaned;
            emails = emails_of cleaned;
            urls = urls_of cleaned;
            addressLines = addressLines_of ls;
            otherLines = otherLines_of ls addressLines emails urls;
            otherText = js_trim (js_join [nl] otherLines)
        in \<lparr>ocr_text = or_null formattedText,
            ocr_address = or_null (js_join (js '' | '') addressLines),
            ocr_contact_number = or_null (js_join (js '', '') (dedup phones)),
            ocr_email = or_null (js_join (js '', '') (dedup emails)),
            ocr_url = or_null (js_join (js '', '') (dedup urls)),
            other_text = or_null otherText\<rparr>)"

subsection \<open>The shape of a line of the cleaned text\<close>

text \<open>
  What the sanitising steps and the line split establish for every line: it is not empty,
  holds only kept characters and no newline, neither starts nor ends with white space,
  and has no two adjacent spaces.
\<close>

definition canonical_line :: "jsstring \<Rightarrow> bool" where
  "canonical_line l \<longleftrightarrow>
     l \<noteq> [] \<and> list_all (\<lambda>c. keep_char c \<and> c \<noteq> nl) l \<and>
     \<not> is_space (hd l) \<and> \<not> is_space (last l) \<and>
     successively (\<lambda>a b. \<not> (is_char sp a \<and> is_char sp b)) l"

subsection \<open>The end of an email\<close>

text \<open>
  The shapes of text that the proofs about the email pattern speak of. \<open>dot_tld\<close>:
  a dot and two letters, the least the pattern needs after the domain. \<open>dom_tail\<close>:
  characters of a domain, none or more, and then a dot and two letters: what lets a
  domain go on. \<open>dom_head\<close>: the same after at least one character of a domain:
  what the pattern needs after the \<^verbatim>\<open>@\<close>. \<open>email_at\<close>: the pattern matches at
  the start of the text.
\<close>

definition two_alpha :: "jsstring \<Rightarrow> bool" where
  "two_alpha s \<longleftrightarrow> 2 \<le> length (takeWhile is_alpha s)"

definition dot_tld :: "jsstring \<Rightarrow> bool" where
  "dot_tld s \<longleftrightarrow> (case s of [] \<Rightarrow> False | c # cs \<Rightarrow> c = 46 \<and> two_alpha cs)"

fun dom_tail :: "jsstring \<Rightarrow> bool" where
  "dom_tail [] = False"
| "dom_tail (c # cs) = (dot_tld (c # cs) \<or> (email_domain c \<and> dom_tail cs))"

definition dom_head :: "jsstring \<Rightarrow> bool" where
  "dom_head s \<longleftrightarrow> (case s of [] \<Rightarrow> False | d # ds \<Rightarrow> email_domain d \<and> dom_tail ds)"

definition email_at :: "jsstring \<Rightarrow> bool" where
  "email_at s \<longleftrightarrow> rx_match emailRegex None s \<noteq> []"

subsection \<open>Parsing the parser's own text again\<close>

text \<open>
  \<^verbatim>\<open>parseOcrText(parseOcrText(raw).ocr_text)\<close>; a \<^verbatim>\<open>null\<close> text is falsy as the empty
  string is, and takes the same first branch.
\<close>

definition reparse :: "jsstring \<Rightarrow> parsed" where
  "reparse raw = parseOcrText (case ocr_text (parseOcrText raw) of None \<Rightarrow> [] | Some t \<Rightarrow> t)"

section \<open>extractTextFromImage\<close>

record ocr_result = parsed +
  ocr_text_raw :: "jsstring option"

definition empty_result :: ocr_result where
  "empty_result =
     \<lparr>ocr_text = None, ocr_address = None, ocr_contact_number = None, ocr_email = None,
      ocr_url = None, other_text = None, ocr_text_raw = None\<rparr>"

text \<open>\<^verbatim>\<open>{ ocr_text_raw: raw, ...parsed }\<close>\<close>

definition with_raw :: "jsstring \<Rightarrow> parsed \<Rightarrow> ocr_result" where
  "with_raw raw p =
     \<lparr>ocr_text = ocr_text p, ocr_address = ocr_address p,
      ocr_contact_number = ocr_contact_number p, ocr_email = ocr_email p,
      ocr_url = ocr_url p, other_text = other_text p, ocr_text_raw = Some raw\<rparr>"

text \<open>
  A value that is thrown, or that a promise rejects with. The function reads one thing
  of it, its \<^verbatim>\<open>message\<close> property. \<open>JsError m\<close> is a value on which that read
  gives \<open>m\<close> (an \<^verbatim>\<open>Error\<close> with its message, or any other value, with
  \<^verbatim>\<open>undefined\<close> for \<open>m\<close>); \<open>TypeError\<close> is the error the engine throws for a
  property read on \<^verbatim>\<open>undefined\<close> or \<^verbatim>\<open>null\<close>; \<open>Nullish\<close> is one of these two
  values; \<open>Unreadable v\<close> is an object whose \<^verbatim>\<open>message\<close> property is an accessor
  that throws \<open>v\<close>.
\<close>

datatype js_error = JsError jsstring | TypeError | Nullish | Unreadable js_error

text \<open>\<^verbatim>\<open>err.message\<close>: \<open>None\<close> when the read returns, \<open>Some v\<close> when it throws \<open>v\<close>.\<close>

primrec message_read :: "js_error \<Rightarrow> js_error option" where
  "message_read (JsError m) = None"
| "message_read TypeError = None"
| "message_read Nullish = Some TypeError"
| "message_read (Unreadable v) = Some v"

text \<open>
  What one call meets outside the program: the files that exist when it starts, the
  names of the three temporaries (built from the temporary directory and the clock),
  whether each \<^verbatim>\<open>sharp\<close> pipeline fulfils or rejects and in which order the three
  settle, whether its temporary exists at the moment the \<^verbatim>\<open>finally\<close> block runs,
  what Tesseract answers on each temporary, in which order, and on the source image,
  and on which paths \<^verbatim>\<open>fs.unlinkSync\<close> throws.
\<close>

record ocr_env =
  files :: "jsstring set"
  tmpPath :: "nat \<Rightarrow> jsstring"
  toFile :: "nat \<Rightarrow> js_error + unit"
  toFile_order :: "nat list"
  tmp_on_disk :: "nat \<Rightarrow> bool"
  recognize_tmp :: "nat \<Rightarrow> js_error + ocr_data"
  recognize_order :: "nat list"
  recognize_src :: "js_error + ocr_data"
  unlink_throws :: "jsstring \<Rightarrow> bool"

text \<open>
  \<^verbatim>\<open>await Promise.all(ps)\<close>: the array of the values when every promise fulfils;
  otherwise an exception, the rejection value of the promise that rejects first.
  \<open>order\<close> lists the indices of the promises in the order in which they settle (an
  index it leaves out settles after those it lists, in array order).
\<close>

definition first_rejected :: "nat list \<Rightarrow> (js_error + 'a) list \<Rightarrow> js_error option" where
  "first_rejected order ps =
     (case filter isl (map (\<lambda>i. ps ! i) (filter (\<lambda>i. i < length ps) (order @ [0..<length ps]))) of
        [] \<Rightarrow> None
      | r # _ \<Rightarrow> Some (projl r))"

definition promise_all :: "nat list \<Rightarrow> (js_error + 'a) list \<Rightarrow> js_error + 'a list" where
  "promise_all order ps =
     (case first_rejected order ps of
        Some e \<Rightarrow> Inl e
      | None \<Rightarrow> Inr (map projr ps))"

definition strategy_indices :: "nat list" where
  "strategy_indices = [0..<length strategy_names]"

text \<open>
  The \<^verbatim>\<open>try\<close> block: \<open>Inl\<close> is an exception that reaches the \<^verbatim>\<open>catch\<close>
  clause.
\<close>

definition try_block :: "ocr_env \<Rightarrow> js_error + ocr_result" where
  "try_block env =
     (case promise_all (toFile_order env) (map (toFile env) strategy_indices) of
        Inl e \<Rightarrow> Inl e
      | Inr _ \<Rightarrow>
         (case promise_all (recognize_order env) (map (recognize_tmp env) strategy_indices) of
            Inl e \<Rightarrow> Inl e
          | Inr results \<Rightarrow>
             (case pick_best (score_results results) of
                None \<Rightarrow> Inl TypeError
              | Some best \<Rightarrow>
                 (let cleanRaw = buildCleanText (sdata best) in
                  if cleanRaw = [] \<or> length (js_trim cleanRaw) < 2 then Inr empty_result
                  else Inr (with_raw cleanRaw (parseOcrText cleanRaw))))))"

text \<open>
  The \<^verbatim>\<open>catch\<close> clause. It reads \<^verbatim>\<open>err.message\<close> for the log, and has its own
  \<^verbatim>\<open>try\<close> around the recognition of the source image, whose handler reads
  \<^verbatim>\<open>e2.message\<close>. \<open>Inl\<close> is an exception that leaves the clause.
\<close>

definition catch_block :: "ocr_env \<Rightarrow> js_error \<Rightarrow> js_error + ocr_result" where
  "catch_block env err =
     (case message_read err of
        Some v \<Rightarrow> Inl v
      | None \<Rightarrow>
         (case recognize_src env of
            Inl e2 \<Rightarrow> (case message_read e2 of Some v \<Rightarrow> Inl v | None \<Rightarrow> Inr empty_result)
          | Inr d \<Rightarrow>
             (case dtext d of
                None \<Rightarrow> Inr empty_result
              | Some t \<Rightarrow>
                 (let rawText = js_trim t in
                  if rawText = [] then Inr empty_result
                  else Inr (with_raw rawText (parseOcrText rawText))))))"

text \<open>
  The rejection value that reaches the \<^verbatim>\<open>catch\<close> clause, if there is one: of the
  preprocessing pipelines the one that rejects first, and when all three fulfil, of the
  recognitions the one that rejects first.
\<close>

definition rejection_of :: "ocr_env \<Rightarrow> js_error option" where
  "rejection_of env =
     (case first_rejected (toFile_order env) (map (toFile env) strategy_indices) of
        Some e \<Rightarrow> Some e
      | None \<Rightarrow> first_rejected (recognize_order env) (map (recognize_tmp env) strategy_indices))"

text \<open>The \<^verbatim>\<open>finally\<close> block: the loop over \<^verbatim>\<open>tmpFiles\<close>, on the set of existing files.\<close>

definition finally_block :: "ocr_env \<Rightarrow> jsstring list \<Rightarrow> jsstring set \<Rightarrow> jsstring set" where
  "finally_block env tmpFiles fs =
     foldl (\<lambda>fs f. if f \<in> fs then (if unlink_throws env f then fs else fs - {f}) else fs)
       fs tmpFiles"

text \<open>
  The function returns what its promise settles with (\<open>Inl\<close>: it rejects) and the set of
  files that exist at that moment. \<open>None\<close> is a missing argument.
\<close>

definition extractTextFromImage ::
  "ocr_env \<Rightarrow> jsstring option \<Rightarrow> (js_error + ocr_result) \<times> jsstring set" where
  "extractTextFromImage env imagePath =
     (case imagePath of
        None \<Rightarrow> (Inr empty_result, files env)
      | Some p \<Rightarrow>
         if p = [] \<or> p \<notin> files env then (Inr empty_result, files env)
         else
           let tmpFiles = map (tmpPath env) strategy_indices;
               outcome = (case try_block env of Inr r \<Rightarrow> Inr r | Inl err \<Rightarrow> catch_block env err);
               written = set (map (tmpPath env) (filter (tmp_on_disk env) strategy_indices))
           in (outcome, finally_block env tmpFiles (files env \<union> written)))"

section \<open>Example inputs\<close>

definition mk_word :: "string \<Rightarrow> real \<Rightarrow> ocr_word" where
  "mk_word t c = \<lparr>wtext = js t, confidence = c\<rparr>"




definition mk_scored :: "string \<Rightarrow> real \<Rightarrow> scored" where
  "mk_scored n c = \<lparr>sdata = \<lparr>dlines = [], dwords = [], dtext = None\<rparr>, score = c, sname = js n\<rparr>"

definition ex_scored :: "scored list" where
  "ex_scored = [mk_scored ''high-contrast'' 62.0, mk_scored ''clean-bw'' 71.5,
      mk_scored ''gentle'' 71.5]"

definition ex_img :: jsstring where
  "ex_img = js ''/uploads/a.jpg''"

definition ex_tmpPath :: "nat \<Rightarrow> jsstring" where
  "ex_tmpPath i = js ''/tmp/ocr_1700000000000_'' @ [48 + i] @ js ''.png''"

definition ex_hello :: ocr_data where
  "ex_hello =
     \<lparr>dlines = [\<lparr>lwords = [mk_word ''hello'' 92, mk_word ''world'' 90]\<rparr>],
      dwords = [mk_word ''hello'' 92, mk_word ''world'' 90],
      dtext = Some (js ''hello world'')\<rparr>"

definition ex_short :: ocr_data where
  "ex_short =
     \<lparr>dlines = [\<lparr>lwords = [mk_word ''a'' 99]\<rparr>], dwords = [mk_word ''a'' 99],
      dtext = Some (js ''a'')\<rparr>"

definition ex_tea :: ocr_data where
  "ex_tea = \<lparr>dlines = [], dwords = [], dtext = Some (js '' tea '')\<rparr>"

text \<open>Every strategy succeeds with the same good transcript.\<close>

definition ex_env_ok :: ocr_env where
  "ex_env_ok =
     \<lparr>files = {ex_img}, tmpPath = ex_tmpPath, toFile = (\<lambda>i. Inr ()), toFile_order = [0, 1, 2],
      tmp_on_disk = (\<lambda>i. True), recognize_tmp = (\<lambda>i. Inr ex_hello),
      recognize_order = [0, 1, 2], recognize_src = Inr ex_tea, unlink_throws = (\<lambda>f. False)\<rparr>"

text \<open>The recognition of the first temporary fails, and so does the fallback.\<close>

definition ex_env_one_fails :: ocr_env where
  "ex_env_one_fails =
     ex_env_ok\<lparr>recognize_tmp := (\<lambda>i. if i = 0 then Inl (JsError (js ''engine'')) else Inr ex_hello),
               recognize_src := Inl (JsError (js ''engine''))\<rparr>"

text \<open>The second preprocessing fails; the fallback reads \<^verbatim>\<open>" tea "\<close> from the source image.\<close>

definition ex_env_fallback :: ocr_env where
  "ex_env_fallback =
     ex_env_ok\<lparr>toFile := (\<lambda>i. if i = 1 then Inl (JsError (js ''sharp'')) else Inr ())\<rparr>"

text \<open>The first strategy scores highest with a transcript of one character.\<close>

definition ex_env_best_short :: ocr_env where
  "ex_env_best_short =
     ex_env_ok\<lparr>recognize_tmp := (\<lambda>i. if i = 0 then Inr ex_short else Inr ex_hello)\<rparr>"

text \<open>The second preprocessing rejects with \<^verbatim>\<open>undefined\<close>.\<close>

definition ex_env_nullish :: ocr_env where
  "ex_env_nullish = ex_env_ok\<lparr>toFile := (\<lambda>i. if i = 1 then Inl Nullish else Inr ())\<rparr>"

text \<open>Deleting the first temporary fails.\<close>

definition ex_env_unlink :: ocr_env where
  "ex_env_unlink = ex_env_ok\<lparr>unlink_throws := (\<lambda>f. f = ex_tmpPath 0)\<rparr>"

text \<open>An address line, and a line that becomes equal to it once its phone number is cut out.\<close>

definition ex_overlap :: jsstring where
  "ex_overlap = js ''road 5'' @ [nl] @ js ''9876543210road 5''"

text \<open>A line with an email in it.\<close>

definition ex_inline :: jsstring where
  "ex_inline = js ''mail a@b.co now''"

text \<open>Two groups of digits on two lines, the first line with a trailing space.\<close>

definition ex_two_lines :: jsstring where
  "ex_two_lines = js ''98765 '' @ [nl] @ js ''43210''"

text \<open>The text the parser rebuilds from the two lines.\<close>

definition ex_two_lines_joined :: jsstring where
  "ex_two_lines_joined = js ''98765'' @ [nl] @ js ''43210''"

text \<open>The same address line twice.\<close>

definition ex_twice :: jsstring where
  "ex_twice = js ''5 Main Rd'' @ [nl] @ js ''5 Main Rd''"

section \<open>Trimming\<close>


lemma js_trim_Nil [simp]: "js_trim [] = []"
  by (simp add: js_trim_def)

lemma set_js_trim: "set (js_trim s) \<subseteq> set s"
proof -
  have "set (dropWhile is_space (rev (dropWhile is_space s))) \<subseteq> set (rev (dropWhile is_space s))"
    by (meson set_dropWhileD subsetI)
  moreover have "set (dropWhile is_space s) \<subseteq> set s"
    by (meson set_dropWhileD subsetI)
  ultimately show ?thesis by (auto simp: js_trim_def)
qed

lemma js_trim_decomp: "\<exists>a b. s = a @ js_trim s @ b \<and> (\<forall>c\<in>set a. is_space c) \<and>
    (\<forall>c\<in>set b. is_space c)"
proof -
  let ?d = "dropWhile is_space s"
  have 1: "s = takeWhile is_space s @ ?d" by simp
  have "rev ?d = takeWhile is_space (rev ?d) @ dropWhile is_space (rev ?d)" by simp
  then have "?d = rev (dropWhile is_space (rev ?d)) @ rev (takeWhile is_space (rev ?d))"
    by (metis rev_append rev_rev_ident)
  then have 2: "?d = js_trim s @ rev (takeWhile is_space (rev ?d))" by (simp add: js_trim_def)
  have 3: "\<forall>c\<in>set (takeWhile is_space s). is_space c" by (auto dest: set_takeWhileD)
  have 4: "\<forall>c\<in>set (rev (takeWhile is_space (rev ?d))). is_space c" by (auto dest: set_takeWhileD)
  from 1 2 have "s = takeWhile is_space s @ js_trim s @ rev (takeWhile is_space (rev ?d))" by metis
  with 3 4 show ?thesis by blast
qed

lemma js_trim_ends:
  assumes "js_trim s \<noteq> []"
  shows "\<not> is_space (hd (js_trim s))" "\<not> is_space (last (js_trim s))"
proof -
  let ?d = "dropWhile is_space s"
  let ?e = "dropWhile is_space (rev ?d)"
  have e: "?e \<noteq> []" using assms by (simp add: js_trim_def)
  have "last (js_trim s) = hd ?e" using e by (simp add: js_trim_def last_rev)
  then show "\<not> is_space (last (js_trim s))" using hd_dropWhile[OF e] by simp
  have d: "?d \<noteq> []"
  proof
    assume a: "?d = []"
    have "?e = []" unfolding a by simp
    with e show False by simp
  qed
  have "rev ?d = takeWhile is_space (rev ?d) @ ?e" by simp
  then have "last (rev ?d) = last ?e" using e by (metis last_appendR)
  then have "hd ?d = last ?e" using d by (simp add: last_rev)
  moreover have "hd (js_trim s) = last ?e" using e by (simp add: js_trim_def hd_rev)
  ultimately show "\<not> is_space (hd (js_trim s))" using hd_dropWhile[OF d] by simp
qed

lemma js_trim_id:
  assumes "s \<noteq> []" "\<not> is_space (hd s)" "\<not> is_space (last s)"
  shows "js_trim s = s"
proof -
  have 1: "dropWhile is_space s = s" using assms by (cases s) auto
  obtain y ys where r: "rev s = y # ys" using assms(1) by (cases "rev s") auto
  then have "y = last s" using assms(1) by (metis hd_rev list.sel(1))
  then have "dropWhile is_space (y # ys) = y # ys" using assms(3) by simp
  with 1 r show ?thesis by (simp add: js_trim_def)
qed

lemma js_trim_idem [simp]: "js_trim (js_trim s) = js_trim s"
proof (cases "js_trim s = []")
  case True
  then show ?thesis by simp
next
  case False
  then show ?thesis using js_trim_ends[OF False] by (intro js_trim_id)
qed

subsection \<open>split and join\<close>

lemma js_split_not_Nil [simp]: "js_split d s \<noteq> []"
  by (induction s) (auto split: list.splits)

lemma js_split_no_sep: "x \<in> set (js_split d s) \<Longrightarrow> d \<notin> set x"
  by (induction s arbitrary: x) (auto split: if_splits list.splits)

lemma js_split_free: "d \<notin> set x \<Longrightarrow> js_split d x = [x]"
  by (induction x) auto

lemma js_split_append: "d \<notin> set x \<Longrightarrow> js_split d (x @ d # s) = x # js_split d s"
  by (induction x) auto

lemma js_split_join:
  "xs \<noteq> [] \<Longrightarrow> \<forall>x\<in>set xs. d \<notin> set x \<Longrightarrow> js_split d (js_join [d] xs) = xs"
proof (induction "[d]" xs rule: js_join.induct)
  case 1
  then show ?case by simp
next
  case (2 x)
  then show ?case by (simp add: js_split_free)
next
  case (3 x y ys)
  then show ?case by (simp add: js_split_append)
qed

lemma js_join_split: "js_join [d] (js_split d s) = s"
proof (induction s)
  case Nil
  then show ?case by simp
next
  case (Cons c cs)
  obtain x xs where x: "js_split d cs = x # xs" by (cases "js_split d cs") auto
  show ?case
  proof (cases "c = d")
    case True
    then show ?thesis using Cons x by simp
  next
    case False
    then show ?thesis using Cons x by (cases xs) auto
  qed
qed

lemma js_split_part: "x \<in> set (js_split d s) \<Longrightarrow> \<exists>a b. s = a @ x @ b"
proof (induction s arbitrary: x)
  case Nil
  then show ?case by simp
next
  case (Cons c cs)
  obtain y ys where y: "js_split d cs = y # ys" by (cases "js_split d cs") auto
  show ?case
  proof (cases "c = d")
    case True
    with Cons.prems have "x = [] \<or> x \<in> set (js_split d cs)" by auto
    then show ?thesis
    proof
      assume "x = []"
      then show ?thesis by auto
    next
      assume "x \<in> set (js_split d cs)"
      from Cons.IH[OF this] obtain a b where "cs = a @ x @ b" by blast
      then have "c # cs = (c # a) @ x @ b" by simp
      then show ?thesis by blast
    qed
  next
    case False
    with Cons.prems y have "x = c # y \<or> x \<in> set ys" by auto
    then show ?thesis
    proof
      assume xc: "x = c # y"
      have "y \<in> set (js_split d cs)" using y by simp
      from js_split_no_sep[OF this] have "d \<notin> set y" .
      have "js_join [d] (js_split d cs) = cs" by (rule js_join_split)
      then have "\<exists>b. cs = y @ b" using y by (cases ys) auto
      then obtain b where "cs = y @ b" by blast
      then have "c # cs = [] @ x @ b" using xc by simp
      then show ?thesis by blast
    next
      assume "x \<in> set ys"
      then have "x \<in> set (js_split d cs)" using y by simp
      from Cons.IH[OF this] obtain a b where "cs = a @ x @ b" by blast
      then have "c # cs = (c # a) @ x @ b" by simp
      then show ?thesis by blast
    qed
  qed
qed

lemma js_split_subset: "x \<in> set (js_split d s) \<Longrightarrow> set x \<subseteq> set s"
  using js_split_part[of x d s] by auto

lemma js_join_nonempty: "x \<in> set xs \<Longrightarrow> x \<noteq> [] \<Longrightarrow> js_join sep xs \<noteq> []"
  by (induction sep xs rule: js_join.induct) auto

lemma js_join_Nil_iff: "js_join sep xs = [] \<longleftrightarrow> xs = [] \<or> (xs = [[]]) \<or>
    (sep = [] \<and> (\<forall>x\<in>set xs. x = []))"
  by (induction sep xs rule: js_join.induct) auto

lemma js_join_hd: "xs \<noteq> [] \<Longrightarrow> hd xs \<noteq> [] \<Longrightarrow> hd (js_join sep xs) = hd (hd xs)"
  by (induction sep xs rule: js_join.induct) auto

lemma js_join_last: "xs \<noteq> [] \<Longrightarrow> last xs \<noteq> [] \<Longrightarrow> last (js_join sep xs) = last (last xs)"
proof (induction sep xs rule: js_join.induct)
  case (3 sep x y ys)
  have "last (y # ys) \<in> set (y # ys)" by (rule last_in_set) simp
  then have "js_join sep (y # ys) \<noteq> []" using 3(3) js_join_nonempty by (metis last_ConsR list.discI)
  then show ?case using 3 by simp
qed auto

lemma js_join_trimmed:
  assumes "xs \<noteq> []" "\<forall>x\<in>set xs. x \<noteq> [] \<and> \<not> is_space (hd x) \<and> \<not> is_space (last x)"
  shows "js_trim (js_join sep xs) = js_join sep xs"
proof (rule js_trim_id)
  have h: "hd xs \<in> set xs" "last xs \<in> set xs" using assms(1) by auto
  show "js_join sep xs \<noteq> []" using assms h by (auto simp: js_join_Nil_iff)
  show "\<not> is_space (hd (js_join sep xs))" using assms h by (simp add: js_join_hd)
  show "\<not> is_space (last (js_join sep xs))" using assms h by (simp add: js_join_last)
qed

lemma set_js_join: "set (js_join sep xs) \<subseteq> set sep \<union> \<Union> (set ` set xs)"
  by (induction sep xs rule: js_join.induct) auto

section \<open>The line filter of buildCleanText\<close>







section \<open>The strategy selector\<close>

lemma hd_insort_key:
  "hd (insort_key f x ys) = (if ys = [] \<or> f x \<le> f (hd ys) then x else hd ys)"
  by (cases ys) auto

lemma sort_key_Nil_iff: "sort_key f xs = [] \<longleftrightarrow> xs = []"
  by (metis length_sort list.size(3) length_0_conv)

lemma hd_sort_key_first_min:
  "xs \<noteq> [] \<Longrightarrow>
   \<exists>i<length xs. hd (sort_key f xs) = xs ! i \<and> (\<forall>j<length xs. f (xs ! i) \<le> f (xs ! j)) \<and>
     (\<forall>j<i. f (xs ! i) < f (xs ! j))"
proof (induction xs)
  case Nil
  then show ?case by simp
next
  case (Cons x xs)
  show ?case
  proof (cases "xs = []")
    case True
    then show ?thesis by simp
  next
    case False
    from Cons.IH[OF False] obtain i where i: "i < length xs" "hd (sort_key f xs) = xs ! i"
      "\<forall>j<length xs. f (xs ! i) \<le> f (xs ! j)" "\<forall>j<i. f (xs ! i) < f (xs ! j)" by blast
    have ne: "sort_key f xs \<noteq> []" using False by (simp add: sort_key_Nil_iff)
    show ?thesis
    proof (cases "f x \<le> f (xs ! i)")
      case True
      have "hd (sort_key f (x # xs)) = x" using True i(2) ne by (simp add: hd_insort_key)
      moreover have "\<forall>j<length (x # xs). f x \<le> f ((x # xs) ! j)"
        using True i(3) by (auto simp: nth_Cons split: nat.splits intro: order_trans)
      ultimately show ?thesis by (intro exI[of _ 0]) simp
    next
      case False
      have "hd (sort_key f (x # xs)) = xs ! i" using False i(2) ne by (simp add: hd_insort_key)
      moreover have "\<forall>j<length (x # xs). f (xs ! i) \<le> f ((x # xs) ! j)"
        using False i(3) by (auto simp: nth_Cons split: nat.splits)
      moreover have "\<forall>j<Suc i. f (xs ! i) < f ((x # xs) ! j)"
        using False i(4) by (auto simp: nth_Cons split: nat.splits)
      ultimately show ?thesis using i(1) by (intro exI[of _ "Suc i"]) simp
    qed
  qed
qed

text \<open>
  C4: of a non-empty list of scored results the selector picks one whose score no other
  exceeds, and every result declared before it has a strictly lower score, so that among
  results that tie on the highest score the first declared wins. With the scores 62.0,
  71.5 and 71.5 in declaration order, it picks the second.
\<close>

theorem pick_best_first_highest:
  "(sc \<noteq> [] \<longrightarrow>
      (\<exists>i<length sc. pick_best sc = Some (sc ! i) \<and>
         (\<forall>j<length sc. score (sc ! j) \<le> score (sc ! i)) \<and>
         (\<forall>j<i. score (sc ! j) < score (sc ! i)))) \<and>
   (map score sc = [62.0, 71.5, 71.5] \<longrightarrow> pick_best sc = Some (sc ! 1))"
proof (intro conjI impI)
  assume ne: "sc \<noteq> []"
  from hd_sort_key_first_min[OF ne, of "\<lambda>a. - score a"] obtain i where
    i: "i < length sc" "hd (sort_key (\<lambda>a. - score a) sc) = sc ! i"
     "\<forall>j<length sc. - score (sc ! i) \<le> - score (sc ! j)"
     "\<forall>j<i. - score (sc ! i) < - score (sc ! j)" by blast
  have "sort_key (\<lambda>a. - score a) sc \<noteq> []" using ne by (simp add: sort_key_Nil_iff)
  then have "pick_best sc = Some (sc ! i)" using i(2)
    by (cases "sort_key (\<lambda>a. - score a) sc") (auto simp: pick_best_def sort_scored_def)
  with i show "\<exists>i<length sc. pick_best sc = Some (sc ! i) \<and>
      (\<forall>j<length sc. score (sc ! j) \<le> score (sc ! i)) \<and> (\<forall>j<i. score (sc ! j) < score (sc ! i))"
    by auto
next
  assume m: "map score sc = [62.0, 71.5, 71.5]"
  then obtain a b c where sc: "sc = [a, b, c]" by (auto simp: map_eq_Cons_conv)
  with m have "score a = 62" "score b = 71.5" "score c = 71.5" by auto
  then show "pick_best sc = Some (sc ! 1)" using sc by (simp add: pick_best_def sort_scored_def)
qed

theorem pick_best_first_highest_witness:
  "ex_scored \<noteq> [] \<and> map score ex_scored = [62.0, 71.5, 71.5] \<and>
   pick_best ex_scored = Some (ex_scored ! 1) \<and>
   map_option sname (pick_best ex_scored) = Some (js ''clean-bw'')"
proof -
  have m: "map score ex_scored = [62.0, 71.5, 71.5]"
    by (simp add: ex_scored_def mk_scored_def)
  have n: "sname (ex_scored ! 1) = js ''clean-bw''"
    by (simp add: ex_scored_def mk_scored_def)
  show ?thesis
    using pick_best_first_highest [of ex_scored] m n by (auto simp: ex_scored_def)
qed

section \<open>Matching and scanning\<close>

subsection \<open>Matches are suffixes\<close>

lemma rx_match_suffix: "(pv', s') \<in> set (rx_match r pv s) \<Longrightarrow> \<exists>u. s = u @ s'"
proof (induction r arbitrary: pv s pv' s')
  case Eps
  then show ?case by simp
next
  case (Chr p)
  then show ?case by (cases s) (auto split: if_splits)
next
  case (Seq a b)
  from Seq.prems obtain pv1 s1 where 1: "(pv1, s1) \<in> set (rx_match a pv s)"
    and 2: "(pv', s') \<in> set (rx_match b pv1 s1)" by auto
  from Seq.IH(1)[OF 1] obtain u where "s = u @ s1" by blast
  moreover from Seq.IH(2)[OF 2] obtain v where "s1 = v @ s'" by blast
  ultimately have "s = (u @ v) @ s'" by simp
  then show ?case by blast
next
  case (Alt a b)
  then show ?case by auto
next
  case (Opt a)
  then show ?case by auto
next
  case (Rep p m n)
  then obtain j where "s' = drop j s" by (auto simp: Let_def)
  then have "s = take j s @ s'" by simp
  then show ?case by blast
next
  case WordB
  then show ?case by (auto split: if_splits)
qed

lemma rx_match_length: "(pv', s') \<in> set (rx_match r pv s) \<Longrightarrow> length s' \<le> length s"
  using rx_match_suffix[of pv' s' r pv s] by auto

subsection \<open>Unfolding a scan\<close>

declare rx_scan.simps [simp del]

lemma rx_scan_Nil_none: "rx_match r pv [] = [] \<Longrightarrow> rx_scan r pv [] k = []"
  by (simp add: rx_scan.simps)

lemma rx_scan_Nil_skip: "rx_scan r pv [] (Suc k) = []"
  by (simp add: rx_scan.simps)

lemma rx_scan_Nil_hit: "rx_match r pv [] \<noteq> [] \<Longrightarrow> rx_scan r pv [] 0 = [Inr []]"
  by (cases "rx_match r pv []") (simp_all add: rx_scan.simps)

lemma rx_scan_Cons_skip: "rx_scan r pv (c # cs) (Suc k) = rx_scan r (Some c) cs k"
  by (simp add: rx_scan.simps)

lemma rx_scan_Cons_none:
  "rx_match r pv (c # cs) = [] \<Longrightarrow> rx_scan r pv (c # cs) 0 = Inl c # rx_scan r (Some c) cs 0"
  by (simp add: rx_scan.simps)

lemma rx_scan_Cons_hit:
  "rx_match r pv (c # cs) = (pv', s') # ms \<Longrightarrow> length s' \<le> length cs \<Longrightarrow>
   rx_scan r pv (c # cs) 0 =
     Inr (take (Suc (length cs) - length s') (c # cs)) #
     rx_scan r (Some c) cs (length cs - length s')"
  by (simp add: rx_scan.simps Let_def)

lemma rx_scan_Cons_empty:
  "rx_match r pv (c # cs) = (pv', s') # ms \<Longrightarrow> length s' = Suc (length cs) \<Longrightarrow>
   rx_scan r pv (c # cs) 0 = Inr [] # Inl c # rx_scan r (Some c) cs 0"
  by (simp add: rx_scan.simps Let_def)

text \<open>The four cases of a scan at a position where a match may start.\<close>

lemma rx_scan_Cons_cases:
  obtains
    (none) "rx_match r pv (c # cs) = []"
      "rx_scan r pv (c # cs) 0 = Inl c # rx_scan r (Some c) cs 0"
  | (empty) pv' s' ms where "rx_match r pv (c # cs) = (pv', s') # ms" "length s' = Suc (length cs)"
      "rx_scan r pv (c # cs) 0 = Inr [] # Inl c # rx_scan r (Some c) cs 0"
  | (hit) pv' s' ms where "rx_match r pv (c # cs) = (pv', s') # ms" "length s' \<le> length cs"
      "rx_scan r pv (c # cs) 0 =
         Inr (take (Suc (length cs) - length s') (c # cs)) #
         rx_scan r (Some c) cs (length cs - length s')"
proof (cases "rx_match r pv (c # cs)")
  case Nil
  then show ?thesis using none rx_scan_Cons_none by blast
next
  case (Cons m ms)
  obtain pv' s' where m: "m = (pv', s')" by (cases m)
  have "(pv', s') \<in> set (rx_match r pv (c # cs))" using Cons m by simp
  from rx_match_length[OF this] have "length s' \<le> Suc (length cs)" by simp
  then consider "length s' = Suc (length cs)" | "length s' \<le> length cs" by linarith
  then show ?thesis
  proof cases
    case 1
    then show ?thesis using empty rx_scan_Cons_empty Cons m by blast
  next
    case 2
    then show ?thesis using hit rx_scan_Cons_hit Cons m by blast
  qed
qed

subsection \<open>Expressions of one character class\<close>

lemma rx_scan_Chr:
  "rx_scan (Chr p) pv s 0 = map (\<lambda>c. if p c then Inr [c] else Inl c) s"
proof (induction s arbitrary: pv)
  case Nil
  then show ?case by (simp add: rx_scan_Nil_none)
next
  case (Cons c cs)
  show ?case
  proof (cases "p c")
    case True
    then have "rx_match (Chr p) pv (c # cs) = [(Some c, cs)]" by simp
    from rx_scan_Cons_hit[OF this] show ?thesis using Cons True by simp
  next
    case False
    then have "rx_match (Chr p) pv (c # cs) = []" by simp
    from rx_scan_Cons_none[OF this] show ?thesis using Cons False by simp
  qed
qed

lemma replaceAll_Chr:
  "replaceAll (Chr p) rep s = concat (map (\<lambda>c. if p c then rep else [c]) s)"
  by (induction s) (simp_all add: replaceAll_def rx_scan_Chr)

lemma replaceAll_Chr_delete: "replaceAll (Chr (\<lambda>c. \<not> p c)) [] s = filter p s"
  by (induction s) (auto simp: replaceAll_Chr)

lemma replaceAll_Chr_absent: "\<forall>c\<in>set s. \<not> p c \<Longrightarrow> replaceAll (Chr p) rep s = s"
  by (induction s) (auto simp: replaceAll_Chr)

subsection \<open>Scans without a match\<close>

lemma rx_scan_no_match:
  "\<not> rx_search r pv s \<Longrightarrow> rx_scan r pv s 0 = map Inl s"
  by (induction s arbitrary: pv) (simp_all add: rx_scan_Nil_none rx_scan_Cons_none)

lemma replaceAll_no_match: "\<not> rx_test r s \<Longrightarrow> replaceAll r rep s = s"
  by (simp add: replaceAll_def rx_test_def rx_scan_no_match comp_def)

lemma matchAll_no_match: "\<not> rx_test r s \<Longrightarrow> matchAll r s = []"
  by (simp add: matchAll_def rx_test_def rx_scan_no_match comp_def)

lemma rx_scan_matches_Nil:
  "concat (map (case_sum (\<lambda>c. []) (\<lambda>m. [m])) (rx_scan r pv s 0)) = [] \<Longrightarrow> \<not> rx_search r pv s"
proof (induction s arbitrary: pv)
  case Nil
  show ?case
  proof (cases "rx_match r pv [] = []")
    case True
    then show ?thesis by simp
  next
    case False
    from rx_scan_Nil_hit[OF this] Nil show ?thesis by simp
  qed
next
  case (Cons c cs)
  show ?case
  proof (cases rule: rx_scan_Cons_cases[of r pv c cs])
    case none
    with Cons show ?thesis by simp
  next
    case (empty pv' s' ms)
    with Cons.prems show ?thesis by simp
  next
    case (hit pv' s' ms)
    with Cons.prems show ?thesis by simp
  qed
qed

lemma matchAll_Nil_iff: "matchAll r s = [] \<longleftrightarrow> \<not> rx_test r s"
  using rx_scan_matches_Nil[of r None s] matchAll_no_match[of r s]
  by (auto simp: matchAll_def rx_test_def)

subsection \<open>What a scan keeps\<close>

lemma set_scan_kept:
  "set (concat (map (case_sum (\<lambda>c. [c]) (\<lambda>m. rep)) (rx_scan r pv s k))) \<subseteq> set s \<union> set rep"
proof (induction s arbitrary: pv k)
  case Nil
  show ?case
  proof (cases k)
    case 0
    then show ?thesis
      by (cases "rx_match r pv [] = []") (simp_all add: rx_scan_Nil_none rx_scan_Nil_hit)
  next
    case (Suc j)
    then show ?thesis by (simp add: rx_scan_Nil_skip)
  qed
next
  case (Cons c cs)
  show ?case
  proof (cases k)
    case (Suc j)
    then show ?thesis using Cons[of "Some c" j] by (auto simp: rx_scan_Cons_skip)
  next
    case 0
    show ?thesis
    proof (cases rule: rx_scan_Cons_cases[of r pv c cs])
      case none
      then show ?thesis using Cons[of "Some c" 0] 0 by auto
    next
      case (empty pv' s' ms)
      then show ?thesis using Cons[of "Some c" 0] 0 by auto
    next
      case (hit pv' s' ms)
      then show ?thesis using Cons[of "Some c" "length cs - length s'"] 0 by auto
    qed
  qed
qed

lemma set_replaceAll: "set (replaceAll r rep s) \<subseteq> set s \<union> set rep"
  unfolding replaceAll_def by (rule set_scan_kept)

lemma set_replaceAll_delete: "set (replaceAll r [] s) \<subseteq> set s"
  using set_replaceAll[of r "[]" s] by simp

subsection \<open>Expressions without assertions do not look behind\<close>

lemma wordb_free_snd:
  "wordb_free r \<Longrightarrow> map snd (rx_match r pv s) = map snd (rx_match r pv' s)"
proof (induction r arbitrary: pv pv' s)
  case (Seq a b)
  have b: "\<And>pv1 s1. map snd (rx_match b pv1 s1) = map snd (rx_match b None s1)"
    using Seq by auto
  have "\<And>X. map snd (concat (map (\<lambda>(pv1, s1). rx_match b pv1 s1) X)) =
     concat (map (\<lambda>s1. map snd (rx_match b None s1)) (map snd X))"
  proof -
    fix X :: "(jschar option \<times> jsstring) list"
    show "map snd (concat (map (\<lambda>(pv1, s1). rx_match b pv1 s1) X)) =
     concat (map (\<lambda>s1. map snd (rx_match b None s1)) (map snd X))"
    proof (induction X)
      case Nil
      show ?case by simp
    next
      case (Cons y X)
      obtain pv1 s1 where y: "y = (pv1, s1)" by (cases y)
      have "map snd (rx_match b pv1 s1) = map snd (rx_match b None s1)" by (rule b)
      then show ?case using Cons y by simp
    qed
  qed
  note H = this
  have A: "map snd (rx_match a pv s) = map snd (rx_match a pv' s)" using Seq by auto
  have 1: "map snd (rx_match (Seq a b) pv s) =
      concat (map (\<lambda>s1. map snd (rx_match b None s1)) (map snd (rx_match a pv s)))"
    unfolding rx_match.simps by (rule H)
  have 2: "map snd (rx_match (Seq a b) pv' s) =
      concat (map (\<lambda>s1. map snd (rx_match b None s1)) (map snd (rx_match a pv' s)))"
    unfolding rx_match.simps by (rule H)
  show ?case unfolding 1 2 A ..
next
  case (Alt a b)
  have "wordb_free a" "wordb_free b" using Alt.prems by auto
  then have "map snd (rx_match a pv s) = map snd (rx_match a pv' s)"
    "map snd (rx_match b pv s) = map snd (rx_match b pv' s)" using Alt.IH by blast+
  then show ?case by simp
next
  case (Opt a)
  have "wordb_free a" using Opt.prems by auto
  then have "map snd (rx_match a pv s) = map snd (rx_match a pv' s)" using Opt.IH by blast
  then show ?case by simp
next
  case (Rep p m n)
  show ?case by (simp add: Let_def comp_def)
next
  case (Chr p)
  show ?case by (cases s) auto
qed auto

lemma wordb_free_match_Nil:
  "wordb_free r \<Longrightarrow> rx_match r pv s = [] \<longleftrightarrow> rx_match r pv' s = []"
  using wordb_free_snd[of r pv s pv'] by (metis map_is_Nil_conv)

lemma wordb_free_match_hd:
  assumes "wordb_free r" "rx_match r pv s = (pv1, s1) # ms"
  shows "\<exists>pv2 ms2. rx_match r pv' s = (pv2, s1) # ms2"
proof -
  have "map snd (rx_match r pv' s) = s1 # map snd ms"
    using wordb_free_snd[OF assms(1), of pv' s pv] assms(2) by simp
  then show ?thesis by (cases "rx_match r pv' s") auto
qed

lemma wordb_free_scan:
  "wordb_free r \<Longrightarrow> rx_scan r pv s k = rx_scan r pv' s k"
proof (induction s arbitrary: pv pv' k)
  case Nil
  show ?case
  proof (cases k)
    case 0
    show ?thesis
    proof (cases "rx_match r pv [] = []")
      case True
      then have "rx_match r pv' [] = []" using wordb_free_match_Nil[OF Nil] by blast
      with True show ?thesis by (simp add: rx_scan_Nil_none)
    next
      case False
      then have "rx_match r pv' [] \<noteq> []" using wordb_free_match_Nil[OF Nil] by blast
      with False 0 show ?thesis by (simp add: rx_scan_Nil_hit)
    qed
  next
    case (Suc j)
    then show ?thesis by (simp add: rx_scan_Nil_skip)
  qed
next
  case (Cons c cs)
  show ?case
  proof (cases k)
    case (Suc j)
    then show ?thesis by (simp add: rx_scan_Cons_skip)
  next
    case 0
    show ?thesis
    proof (cases rule: rx_scan_Cons_cases[of r pv c cs])
      case none
      then have "rx_match r pv' (c # cs) = []" using wordb_free_match_Nil[OF Cons.prems] by blast
      from rx_scan_Cons_none[OF this] none 0 show ?thesis by simp
    next
      case (empty pv1 s1 ms)
      from wordb_free_match_hd[OF Cons.prems empty(1), of pv'] obtain pv2 ms2 where
        "rx_match r pv' (c # cs) = (pv2, s1) # ms2" by blast
      from rx_scan_Cons_empty[OF this empty(2)] empty 0 show ?thesis by simp
    next
      case (hit pv1 s1 ms)
      from wordb_free_match_hd[OF Cons.prems hit(1), of pv'] obtain pv2 ms2 where
        "rx_match r pv' (c # cs) = (pv2, s1) # ms2" by blast
      from rx_scan_Cons_hit[OF this hit(2)] hit 0 show ?thesis by simp
    qed
  qed
qed

lemma rx_scan_skip:
  "wordb_free r \<Longrightarrow> rx_scan r pv (xs @ ys) (length xs) = rx_scan r pv' ys 0"
proof (induction xs arbitrary: pv)
  case Nil
  then show ?case using wordb_free_scan by simp
next
  case (Cons x xs)
  then show ?case by (simp add: rx_scan_Cons_skip)
qed

subsection \<open>Collapsing runs of a character class\<close>

lemma rx_match_Rep_Nil_iff:
  "rx_match (Rep p m None) pv s = [] \<longleftrightarrow> length (takeWhile p s) < m"
  by (auto simp: Let_def)

lemma rx_match_Rep_hd:
  assumes "m \<le> length (takeWhile p s)"
  shows "\<exists>pv' ms. rx_match (Rep p m None) pv s = (pv', dropWhile p s) # ms"
proof -
  let ?k = "length (takeWhile p s)"
  have "rev [m..<Suc ?k] = ?k # rev [m..<?k]" using assms by simp
  moreover have "drop ?k s = dropWhile p s" by (simp add: dropWhile_eq_drop)
  ultimately show ?thesis by (simp add: Let_def)
qed

lemma replaceAll_Rep_Nil: "0 < m \<Longrightarrow> replaceAll (Rep p m None) rep [] = []"
  by (simp add: replaceAll_def rx_scan_Nil_none Let_def)

lemma replaceAll_Rep_char:
  assumes "length (takeWhile p (c # cs)) < m"
  shows "replaceAll (Rep p m None) rep (c # cs) = c # replaceAll (Rep p m None) rep cs"
proof -
  have "rx_match (Rep p m None) None (c # cs) = []"
    using assms by (simp only: rx_match_Rep_Nil_iff)
  from rx_scan_Cons_none[OF this]
  have "rx_scan (Rep p m None) None (c # cs) 0 = Inl c # rx_scan (Rep p m None) None cs 0"
    using wordb_free_scan[of "Rep p m None" "Some c" cs 0 None] by simp
  then show ?thesis by (simp add: replaceAll_def)
qed

lemma replaceAll_Rep_run:
  assumes "0 < m" "m \<le> length (takeWhile p s)"
  shows "replaceAll (Rep p m None) rep s = rep @ replaceAll (Rep p m None) rep (dropWhile p s)"
proof -
  obtain c cs where s: "s = c # cs" using assms by (cases s) auto
  let ?t = "takeWhile p (c # cs)"
  let ?d = "dropWhile p (c # cs)"
  from rx_match_Rep_hd[OF assms(2), of None] s obtain pv' ms where
    m: "rx_match (Rep p m None) None (c # cs) = (pv', ?d) # ms" by auto
  have pc: "p c" using assms s by (cases "p c") auto
  then have t: "?t \<noteq> []" by simp
  have len: "length ?d + length ?t = Suc (length cs)"
    by (metis add.commute length_append takeWhile_dropWhile_id length_Cons)
  have l1: "length ?d \<le> length cs" using len t by (cases ?t) auto
  have n: "Suc (length cs) - length ?d = length ?t" using len by simp
  have tk: "take (length ?t) (c # cs) = ?t" by (metis takeWhile_eq_take)
  have cs: "cs = takeWhile p cs @ ?d" using pc by simp
  have "length (takeWhile p cs) + length (dropWhile p cs) = length cs"
    by (metis length_append takeWhile_dropWhile_id)
  then have k: "length cs - length ?d = length (takeWhile p cs)" using pc by simp
  have "rx_scan (Rep p m None) (Some c) cs (length cs - length ?d) =
        rx_scan (Rep p m None) (Some c) (takeWhile p cs @ ?d) (length (takeWhile p cs))"
    using cs k by simp
  also have "\<dots> = rx_scan (Rep p m None) None ?d 0"
    by (rule rx_scan_skip) simp
  finally have sk: "rx_scan (Rep p m None) (Some c) cs (length cs - length ?d) =
        rx_scan (Rep p m None) None ?d 0" .
  from rx_scan_Cons_hit[OF m l1] have
    "rx_scan (Rep p m None) None (c # cs) 0 = Inr ?t # rx_scan (Rep p m None) None ?d 0"
    using n tk sk by simp
  then show ?thesis using s by (simp add: replaceAll_def)
qed

text \<open>
  Replacing every run of at least two characters of a class by one character of the
  class leaves no two adjacent characters of the class.
\<close>

lemma collapse2_adjacent:
  assumes "p x"
  shows "successively (\<lambda>a b. \<not> (p a \<and> p b)) (replaceAll (Rep p 2 None) [x] s) \<and>
         (s \<noteq> [] \<longrightarrow> replaceAll (Rep p 2 None) [x] s \<noteq> [] \<and>
            (p (hd (replaceAll (Rep p 2 None) [x] s)) \<longrightarrow> p (hd s)))"
proof (induction s rule: length_induct)
  case (1 s)
  let ?out = "replaceAll (Rep p 2 None) [x]"
  show ?case
  proof (cases s)
    case Nil
    then show ?thesis by (simp add: replaceAll_Rep_Nil)
  next
    case (Cons c cs)
    show ?thesis
    proof (cases "2 \<le> length (takeWhile p s)")
      case True
      let ?d = "dropWhile p s"
      have out: "?out s = x # ?out ?d" using replaceAll_Rep_run[OF _ True, of "[x]"] by simp
      have pc: "p (hd s)" using True Cons by (auto split: if_splits)
      have "length ?d < length s" using True
        by (metis add_lessD1 length_append less_add_same_cancel2 takeWhile_dropWhile_id
            pos2 less_le_trans)
      with 1 have ih: "successively (\<lambda>a b. \<not> (p a \<and> p b)) (?out ?d)"
        "?d \<noteq> [] \<longrightarrow> ?out ?d \<noteq> [] \<and> (p (hd (?out ?d)) \<longrightarrow> p (hd ?d))" by auto
      have "?out ?d \<noteq> [] \<longrightarrow> \<not> p (hd (?out ?d))"
      proof
        assume ne: "?out ?d \<noteq> []"
        have dne: "?d \<noteq> []"
        proof
          assume e: "?d = []"
          have "?out ?d = []" unfolding e by (simp add: replaceAll_Rep_Nil)
          with ne show False by simp
        qed
        from hd_dropWhile[OF dne] have "\<not> p (hd ?d)" .
        then show "\<not> p (hd (?out ?d))" using ih(2) dne by blast
      qed
      then have "successively (\<lambda>a b. \<not> (p a \<and> p b)) (x # ?out ?d)"
        using ih(1) by (auto simp: successively_Cons)
      then show ?thesis using out pc by simp
    next
      case False
      then have lt: "length (takeWhile p (c # cs)) < 2" using Cons by simp
      have out: "?out s = c # ?out cs" using replaceAll_Rep_char[OF lt] Cons by simp
      from 1 Cons have ih: "successively (\<lambda>a b. \<not> (p a \<and> p b)) (?out cs)"
        "cs \<noteq> [] \<longrightarrow> ?out cs \<noteq> [] \<and> (p (hd (?out cs)) \<longrightarrow> p (hd cs))" by auto
      have "?out cs \<noteq> [] \<longrightarrow> \<not> (p c \<and> p (hd (?out cs)))"
      proof (intro impI notI)
        assume ne: "?out cs \<noteq> []" and pp: "p c \<and> p (hd (?out cs))"
        then have cne: "cs \<noteq> []" using replaceAll_Rep_Nil[of 2 p "[x]"] by auto
        with ih(2) pp have "p (hd cs)" by simp
        with cne pp have "2 \<le> length (takeWhile p (c # cs))" by (cases cs) auto
        with lt show False by simp
      qed
      then have "successively (\<lambda>a b. \<not> (p a \<and> p b)) (c # ?out cs)"
        using ih(1) by (auto simp: successively_Cons)
      then show ?thesis using out Cons by simp
    qed
  qed
qed

text \<open>
  Replacing runs of a class \<open>p\<close> by characters of \<open>p\<close> creates no two adjacent characters
  of a class \<open>q\<close> disjoint from \<open>p\<close>.
\<close>

lemma collapse_keeps_adjacent:
  assumes "0 < m" "rep \<noteq> []" "\<forall>c\<in>set rep. p c" "\<forall>c. p c \<longrightarrow> \<not> q c"
  shows "successively (\<lambda>a b. \<not> (q a \<and> q b)) s \<longrightarrow>
         successively (\<lambda>a b. \<not> (q a \<and> q b)) (replaceAll (Rep p m None) rep s) \<and>
         (replaceAll (Rep p m None) rep s \<noteq> [] \<longrightarrow>
            s \<noteq> [] \<and> (q (hd (replaceAll (Rep p m None) rep s)) \<longrightarrow> q (hd s)))"
proof (induction s rule: length_induct)
  case (1 s)
  let ?out = "replaceAll (Rep p m None) rep"
  let ?Q = "\<lambda>a b. \<not> (q a \<and> q b)"
  show ?case
  proof
    assume sc: "successively ?Q s"
    show "successively ?Q (?out s) \<and> (?out s \<noteq> [] \<longrightarrow> s \<noteq> [] \<and> (q (hd (?out s)) \<longrightarrow> q (hd s)))"
    proof (cases s)
      case Nil
      then show ?thesis using assms(1) by (simp add: replaceAll_Rep_Nil)
    next
      case (Cons c cs)
      show ?thesis
      proof (cases "m \<le> length (takeWhile p s)")
        case True
        let ?d = "dropWhile p s"
        have out: "?out s = rep @ ?out ?d" using replaceAll_Rep_run[OF assms(1) True] by simp
        have "takeWhile p s \<noteq> []" using True assms(1) by auto
        then have "length ?d < length s"
          by (metis length_append length_greater_0_conv less_add_same_cancel2
              takeWhile_dropWhile_id)
        moreover have "successively ?Q ?d"
          using sc by (metis successively_append_iff takeWhile_dropWhile_id)
        ultimately have ih: "successively ?Q (?out ?d)" using 1 by auto
        have rq: "\<forall>c\<in>set rep. \<not> q c" using assms(3,4) by auto
        have "successively ?Q rep" using rq
          by (induction rep) (auto simp: successively_Cons)
        moreover have "\<not> q (last rep)" "\<not> q (hd rep)" using rq assms(2) by auto
        ultimately have "successively ?Q (rep @ ?out ?d)" using ih
          by (auto simp: successively_append_iff)
        then show ?thesis using out Cons assms(2) \<open>\<not> q (hd rep)\<close> by simp
      next
        case False
        then have lt: "length (takeWhile p (c # cs)) < m" using Cons by simp
        have out: "?out s = c # ?out cs" using replaceAll_Rep_char[OF lt] Cons by simp
        have scs: "successively ?Q cs" using sc Cons by (auto simp: successively_Cons)
        with 1 Cons have ih: "successively ?Q (?out cs)"
          "?out cs \<noteq> [] \<longrightarrow> cs \<noteq> [] \<and> (q (hd (?out cs)) \<longrightarrow> q (hd cs))" by auto
        have "?out cs \<noteq> [] \<longrightarrow> \<not> (q c \<and> q (hd (?out cs)))"
          using ih(2) sc Cons by (auto simp: successively_Cons)
        then have "successively ?Q (c # ?out cs)" using ih(1) by (auto simp: successively_Cons)
        then show ?thesis using out Cons by simp
      qed
    qed
  qed
qed

text \<open>Where no two characters of a class are adjacent, no run of two or more is found.\<close>

lemma no_run_no_match:
  assumes "2 \<le> m"
  shows "successively (\<lambda>a b. \<not> (p a \<and> p b)) s \<Longrightarrow> \<not> rx_search (Rep p m None) pv s"
proof (induction s arbitrary: pv)
  case Nil
  then show ?case using assms by (simp add: Let_def)
next
  case (Cons c cs)
  have "length (takeWhile p (c # cs)) \<le> 1"
    using Cons.prems by (cases cs) (auto simp: successively_Cons)
  then have "rx_match (Rep p m None) pv (c # cs) = []"
    using assms by (simp only: rx_match_Rep_Nil_iff)
  moreover have "successively (\<lambda>a b. \<not> (p a \<and> p b)) cs"
    using Cons.prems by (auto simp: successively_Cons)
  ultimately show ?case using Cons.IH by simp
qed

lemma successively_part: "successively P (a @ x @ b) \<Longrightarrow> successively P x"
  by (simp add: successively_append_iff)

lemma successively_absent: "\<forall>c\<in>set s. \<not> p c \<Longrightarrow> successively (\<lambda>a b. \<not> (p a \<and> p b)) s"
  by (induction s) (auto simp: successively_Cons)

section \<open>The sanitising steps of the parser\<close>

subsection \<open>The cleaned text\<close>

lemma keep_char_simps: "keep_char sp" "keep_char nl" "\<not> keep_char 9"
  by (simp_all add: keep_char_def sp_def nl_def is_tamil_def is_lower_def is_upper_def is_digit_def
      is_one_of_def js_def)

lemma is_space_simps: "is_space sp" "is_space nl"
  by (simp_all add: is_space_def sp_def nl_def)

lemma cleaned_of_eq:
  "cleaned_of raw =
     js_trim (replaceAll (Rep (is_char nl) 3 None) [nl, nl]
       (replaceAll (Rep (is_char sp) 2 None) [sp] (filter keep_char raw)))"
proof -
  have "\<forall>c\<in>set (filter keep_char raw). \<not> is_char 9 c"
    using keep_char_simps(3) by (auto simp: is_char_def)
  then have "replaceAll (Chr (is_char 9)) [sp] (filter keep_char raw) = filter keep_char raw"
    by (rule replaceAll_Chr_absent)
  then show ?thesis by (simp add: cleaned_of_def replaceAll_Chr_delete)
qed

lemma cleaned_chars: "c \<in> set (cleaned_of raw) \<Longrightarrow> keep_char c"
proof -
  assume "c \<in> set (cleaned_of raw)"
  then have "c \<in> set (replaceAll (Rep (is_char nl) 3 None) [nl, nl]
       (replaceAll (Rep (is_char sp) 2 None) [sp] (filter keep_char raw)))"
    using set_js_trim unfolding cleaned_of_eq by blast
  then have "c \<in> set (replaceAll (Rep (is_char sp) 2 None) [sp] (filter keep_char raw)) \<or> c = nl"
    using set_replaceAll by fastforce
  then have "c \<in> set (filter keep_char raw) \<or> c = sp \<or> c = nl"
    using set_replaceAll by fastforce
  then show "keep_char c" using keep_char_simps by auto
qed

lemma cleaned_no_double_space:
  "successively (\<lambda>a b. \<not> (is_char sp a \<and> is_char sp b)) (cleaned_of raw)"
proof -
  let ?Q = "\<lambda>a b. \<not> (is_char sp a \<and> is_char sp b)"
  let ?s1 = "replaceAll (Rep (is_char sp) 2 None) [sp] (filter keep_char raw)"
  let ?s2 = "replaceAll (Rep (is_char nl) 3 None) [nl, nl] ?s1"
  have 1: "successively ?Q ?s1"
    using collapse2_adjacent[of "is_char sp" sp "filter keep_char raw"] by (simp add: is_char_def)
  have "successively ?Q ?s1 \<longrightarrow> successively ?Q ?s2 \<and>
      (?s2 \<noteq> [] \<longrightarrow> ?s1 \<noteq> [] \<and> (is_char sp (hd ?s2) \<longrightarrow> is_char sp (hd ?s1)))"
    by (rule collapse_keeps_adjacent) (auto simp: is_char_def sp_def nl_def)
  with 1 have 2: "successively ?Q ?s2" by blast
  obtain a b where "?s2 = a @ js_trim ?s2 @ b" using js_trim_decomp by blast
  with 2 have "successively ?Q (js_trim ?s2)" using successively_part by metis
  then show ?thesis by (simp only: cleaned_of_eq)
qed

subsection \<open>The lines\<close>

lemma lines_of_canonical:
  assumes "\<forall>c\<in>set s. keep_char c" "successively (\<lambda>a b. \<not> (is_char sp a \<and> is_char sp b)) s"
    "l \<in> set (lines_of s)"
  shows "canonical_line l"
proof -
  from assms(3) obtain x where x: "x \<in> set (js_split nl s)" "l = js_trim x" "l \<noteq> []"
    by (auto simp: lines_of_def)
  have xs: "set x \<subseteq> set s" using x(1) by (rule js_split_subset)
  have ls: "set l \<subseteq> set x" using x(2) set_js_trim by simp
  have "nl \<notin> set x" using x(1) by (rule js_split_no_sep)
  then have 1: "list_all (\<lambda>c. keep_char c \<and> c \<noteq> nl) l"
    using assms(1) xs ls by (auto simp: list_all_iff)
  have 2: "\<not> is_space (hd l)" "\<not> is_space (last l)"
    using js_trim_ends[of x] x(2,3) by auto
  obtain a b where "s = a @ x @ b" using js_split_part[OF x(1)] by blast
  moreover obtain a' b' where "x = a' @ l @ b'" using js_trim_decomp[of x] x(2) by blast
  ultimately have "s = (a @ a') @ l @ (b' @ b)" by simp
  then have 3: "successively (\<lambda>a b. \<not> (is_char sp a \<and> is_char sp b)) l"
    using assms(2) successively_part by metis
  show ?thesis using x(3) 1 2 3 by (simp add: canonical_line_def)
qed

lemma parsed_lines_canonical: "l \<in> set (lines_of (cleaned_of raw)) \<Longrightarrow> canonical_line l"
  using lines_of_canonical[of "cleaned_of raw" l] cleaned_chars cleaned_no_double_space by blast

lemma lines_of_part: "l \<in> set (lines_of s) \<Longrightarrow> \<exists>a b. s = a @ l @ b"
proof -
  assume "l \<in> set (lines_of s)"
  then obtain x where x: "x \<in> set (js_split nl s)" "l = js_trim x"
    by (auto simp: lines_of_def)
  obtain a b where "s = a @ x @ b" using js_split_part[OF x(1)] by blast
  moreover obtain a' b' where "x = a' @ l @ b'" using js_trim_decomp[of x] x(2) by blast
  ultimately have "s = (a @ a') @ l @ (b' @ b)" by simp
  then show ?thesis by blast
qed

lemma canonical_line_trim: "canonical_line l \<Longrightarrow> js_trim l = l"
  by (simp add: canonical_line_def js_trim_id)

lemma canonical_line_no_nl: "canonical_line l \<Longrightarrow> nl \<notin> set l"
  by (auto simp: canonical_line_def list_all_iff)

subsection \<open>The text rebuilt from its lines is a fixed point of the sanitising steps\<close>

lemma join_no_double:
  assumes "\<forall>l\<in>set ls. l \<noteq> [] \<and> successively (\<lambda>a b. \<not> (p a \<and> p b)) l \<and> \<not> p (hd l) \<and> \<not> p (last l)"
  shows "successively (\<lambda>a b. \<not> (p a \<and> p b)) (js_join [d] ls)"
  using assms
proof (induction "[d]" ls rule: js_join.induct)
  case 1
  then show ?case by simp
next
  case (2 x)
  then show ?case by simp
next
  case (3 x y ys)
  have "js_join [d] (y # ys) \<noteq> []" using 3(2) js_join_nonempty[of y "y # ys"] by simp
  moreover have "hd (js_join [d] (y # ys)) = hd y" using 3(2) by (simp add: js_join_hd)
  ultimately show ?case using 3 by (auto simp: successively_append_iff successively_Cons)
qed

lemma join_no_double_sep:
  assumes "\<forall>l\<in>set ls. l \<noteq> [] \<and> d \<notin> set l"
  shows "successively (\<lambda>a b. \<not> (is_char d a \<and> is_char d b)) (js_join [d] ls)"
  using assms
proof (induction "[d]" ls rule: js_join.induct)
  case 1
  then show ?case by simp
next
  case (2 x)
  have "\<forall>c\<in>set x. \<not> is_char d c" using 2 by (auto simp: is_char_def)
  then show ?case unfolding js_join.simps by (rule successively_absent)
next
  case (3 x y ys)
  have "js_join [d] (y # ys) \<noteq> []" using 3(2) js_join_nonempty[of y "y # ys"] by simp
  moreover have "hd (js_join [d] (y # ys)) = hd y" using 3(2) by (simp add: js_join_hd)
  moreover have "\<forall>c\<in>set x. \<not> is_char d c" using 3(2) by (auto simp: is_char_def)
  then have "successively (\<lambda>a b. \<not> (is_char d a \<and> is_char d b)) x"
    by (rule successively_absent)
  moreover have "last x \<noteq> d" "hd y \<noteq> d" using 3(2) by (auto simp: last_in_set)
  ultimately show ?case using 3
    by (auto simp: successively_append_iff successively_Cons is_char_def)
qed

lemma canonical_fixed_point:
  assumes "ls \<noteq> []" "\<forall>l\<in>set ls. canonical_line l"
  shows "cleaned_of (js_join [nl] ls) = js_join [nl] ls"
    and "lines_of (js_join [nl] ls) = ls"
proof -
  let ?F = "js_join [nl] ls"
  have chars: "\<forall>c\<in>set ?F. keep_char c"
    using set_js_join[of "[nl]" ls] assms(2) keep_char_simps(2)
    by (auto simp: canonical_line_def list_all_iff)
  then have 1: "filter keep_char ?F = ?F" by simp
  have "successively (\<lambda>a b. \<not> (is_char sp a \<and> is_char sp b)) ?F"
    by (rule join_no_double) (use assms(2) is_space_simps in
        \<open>auto simp: canonical_line_def is_char_def\<close>)
  then have "\<not> rx_test (Rep (is_char sp) 2 None) ?F"
    unfolding rx_test_def by (rule no_run_no_match[rotated]) simp
  then have 2: "replaceAll (Rep (is_char sp) 2 None) [sp] ?F = ?F" by (rule replaceAll_no_match)
  have "successively (\<lambda>a b. \<not> (is_char nl a \<and> is_char nl b)) ?F"
    by (rule join_no_double_sep) (use assms(2) in \<open>auto simp: canonical_line_def list_all_iff\<close>)
  then have "\<not> rx_test (Rep (is_char nl) 3 None) ?F"
    unfolding rx_test_def by (rule no_run_no_match[rotated]) simp
  then have 3: "replaceAll (Rep (is_char nl) 3 None) [nl, nl] ?F = ?F" by (rule replaceAll_no_match)
  have 4: "js_trim ?F = ?F"
    by (rule js_join_trimmed) (use assms in \<open>auto simp: canonical_line_def\<close>)
  show c: "cleaned_of ?F = ?F" by (simp add: cleaned_of_eq 1 2 3 4)
  have "js_split nl ?F = ls"
    by (rule js_split_join) (use assms canonical_line_no_nl in auto)
  moreover have "map js_trim ls = ls" using assms(2) canonical_line_trim by (simp add: map_idI)
  moreover have "filter (\<lambda>l. length l > 0) ls = ls" using assms(2)
      by (auto simp: canonical_line_def)
  ultimately show "lines_of ?F = ls" by (simp add: lines_of_def)
qed

section \<open>Matches and separators\<close>

subsection \<open>A character no class accepts separates the matches\<close>

lemma rx_avoids_wordb_free: "rx_avoids c r \<Longrightarrow> wordb_free r"
  by (induction r) auto

lemma rx_match_avoids:
  "rx_avoids c r \<Longrightarrow>
   rx_match r pv (u @ c # b) = map (\<lambda>(pv', s'). (pv', s' @ c # b)) (rx_match r pv u)"
proof (induction r arbitrary: pv u)
  case Eps
  show ?case by simp
next
  case (Chr p)
  then show ?case by (cases u) auto
next
  case (Seq r1 r2)
  have 1: "rx_match r1 pv (u @ c # b) = map (\<lambda>(pv', s'). (pv', s' @ c # b)) (rx_match r1 pv u)"
    using Seq by simp
  have 2: "\<And>pv1 u1. rx_match r2 pv1 (u1 @ c # b) =
      map (\<lambda>(pv', s'). (pv', s' @ c # b)) (rx_match r2 pv1 u1)"
    using Seq by simp
  have "\<And>X. concat (map (\<lambda>(pv', s'). rx_match r2 pv' s') (map (\<lambda>(pv', s'). (pv', s' @ c # b)) X)) =
      map (\<lambda>(pv', s'). (pv', s' @ c # b)) (concat (map (\<lambda>(pv', s'). rx_match r2
          pv' s') X))"
  proof -
    fix X :: "(jschar option \<times> jsstring) list"
    show "concat (map (\<lambda>(pv', s'). rx_match r2 pv' s') (map (\<lambda>(pv', s'). (pv', s' @ c # b)) X)) =
      map (\<lambda>(pv', s'). (pv', s' @ c # b)) (concat (map (\<lambda>(pv', s'). rx_match r2 pv' s') X))"
    proof (induction X)
      case Nil
      show ?case by simp
    next
      case (Cons y X)
      obtain pv1 u1 where y: "y = (pv1, u1)" by (cases y)
      show ?case using Cons 2[of pv1 u1] y by simp
    qed
  qed
  then show ?case unfolding rx_match.simps 1 .
next
  case (Alt r1 r2)
  then show ?case by simp
next
  case (Opt r)
  then show ?case by simp
next
  case (Rep p m n)
  then have npc: "\<not> p c" by simp
  have tw: "takeWhile p (u @ c # b) = takeWhile p u"
    using npc by (induction u) auto
  let ?k = "length (takeWhile p u)"
  let ?hi = "case n of None \<Rightarrow> ?k | Some n' \<Rightarrow> min ?k n'"
  have hi: "?hi \<le> length u"
    using length_takeWhile_le[of p u] by (cases n) auto
  have "\<And>j. j \<in> set (rev [m..<Suc ?hi]) \<Longrightarrow>
     (if j = 0 then pv else Some ((u @ c # b) ! (j - 1)), drop j (u @ c # b)) =
     (if j = 0 then pv else Some (u ! (j - 1)), drop j u @ c # b)"
    using hi by (auto simp: nth_append)
  then have "map (\<lambda>j. (if j = 0 then pv else Some ((u @ c # b) ! (j - 1)), drop j (u @ c # b)))
        (rev [m..<Suc ?hi]) =
      map (\<lambda>j. (if j = 0 then pv else Some (u ! (j - 1)), drop j u @ c # b)) (rev [m..<Suc ?hi])"
    by (intro map_cong) auto
  then show ?case by (simp add: Let_def tw comp_def)
next
  case WordB
  then show ?case by simp
qed

lemma rx_scan_separator:
  assumes "rx_avoids c r" "\<And>pv. rx_match r pv [] = []"
  shows "k \<le> length u \<Longrightarrow>
     rx_scan r pv (u @ c # b) k = rx_scan r pv u k @ Inl c # rx_scan r (Some c) b 0"
proof (induction u arbitrary: pv k)
  case Nil
  have "rx_match r pv (c # b) = []"
    using rx_match_avoids[OF assms(1), of pv "[]" b] assms(2) by simp
  from rx_scan_Cons_none[OF this] Nil show ?case by (simp add: rx_scan_Nil_none assms(2))
next
  case (Cons x xs)
  show ?case
  proof (cases k)
    case (Suc j)
    then show ?thesis using Cons by (simp add: rx_scan_Cons_skip)
  next
    case 0
    have m: "rx_match r pv (x # xs @ c # b) =
        map (\<lambda>(pv', s'). (pv', s' @ c # b)) (rx_match r pv (x # xs))"
      using rx_match_avoids[OF assms(1), of pv "x # xs" b] by simp
    show ?thesis
    proof (cases rule: rx_scan_Cons_cases[of r pv x xs])
      case none
      then have "rx_match r pv (x # xs @ c # b) = []" using m by simp
      from rx_scan_Cons_none[OF this] none Cons.IH[of 0 "Some x"] 0 show ?thesis by simp
    next
      case (empty pv' s' ms)
      have "(pv', s') \<in> set (rx_match r pv (x # xs))" using empty(1) by simp
      from rx_match_suffix[OF this] empty(2) have s': "s' = x # xs"
        by (metis append_eq_append_conv length_Cons self_append_conv2 append_Nil)
      have "rx_match r pv (x # xs @ c # b) = (pv', x # xs @ c # b) # map
          (\<lambda>(pv', s'). (pv', s' @ c # b)) ms"
        using m empty(1) s' by simp
      from rx_scan_Cons_empty[OF this] empty(3) Cons.IH[of 0 "Some x"] 0 show ?thesis by simp
    next
      case (hit pv' s' ms)
      have 1: "rx_match r pv (x # xs @ c # b) = (pv', s' @ c # b) # map
          (\<lambda>(pv', s'). (pv', s' @ c # b)) ms"
        using m hit(1) by simp
      have 2: "length (s' @ c # b) \<le> length (xs @ c # b)" using hit(2) by simp
      have 3: "Suc (length (xs @ c # b)) - length (s' @ c # b) = Suc (length xs) - length s'"
        by simp
      have 4: "length (xs @ c # b) - length (s' @ c # b) = length xs - length s'" by simp
      have 5: "take (Suc (length xs) - length s') (x # xs @ c # b) =
          take (Suc (length xs) - length s') (x # xs)"
        by (cases "Suc (length xs) - length s'") auto
      have 6: "length xs - length s' \<le> length xs" by simp
      from rx_scan_Cons_hit[OF 1 2] have
        "rx_scan r pv (x # xs @ c # b) 0 =
           Inr (take (Suc (length xs) - length s') (x # xs)) #
           rx_scan r (Some x) (xs @ c # b) (length xs - length s')"
        unfolding 3 4 5 .
      then show ?thesis using hit(3) Cons.IH[OF 6, of "Some x"] 0 by simp
    qed
  qed
qed

lemma matchAll_separator:
  assumes "rx_avoids c r" "\<And>pv. rx_match r pv [] = []"
  shows "matchAll r (u @ c # b) = matchAll r u @ matchAll r b"
proof -
  have "rx_scan r None (u @ c # b) 0 = rx_scan r None u 0 @ Inl c # rx_scan r None b 0"
    using rx_scan_separator[OF assms, of 0 u None b]
      wordb_free_scan[OF rx_avoids_wordb_free[OF assms(1)], of "Some c" b 0 None] by simp
  then show ?thesis by (simp add: matchAll_def)
qed

lemma matchAll_Nil:
  assumes "\<And>pv. rx_match r pv [] = []"
  shows "matchAll r [] = []"
  by (simp add: matchAll_def rx_scan_Nil_none assms)

lemma matchAll_join:
  assumes "rx_avoids c r" "\<And>pv. rx_match r pv [] = []"
  shows "matchAll r (js_join [c] xs) = concat (map (matchAll r) xs)"
proof (induction "[c]" xs rule: js_join.induct)
  case 1
  show ?case by (simp add: matchAll_Nil assms(2))
next
  case (2 x)
  show ?case by simp
next
  case (3 x y ys)
  then show ?case using matchAll_separator[OF assms, of x "js_join [c] (y # ys)"] by simp
qed

lemma matchAll_split:
  assumes "rx_avoids c r" "\<And>pv. rx_match r pv [] = []"
  shows "matchAll r s = concat (map (matchAll r) (js_split c s))"
  using matchAll_join[OF assms, of "js_split c s"] by (simp add: js_join_split)

lemma matchAll_spaces_left:
  assumes "\<And>c. is_space c \<Longrightarrow> rx_avoids c r" "\<And>pv. rx_match r pv [] = []"
  shows "\<forall>c\<in>set a. is_space c \<Longrightarrow> matchAll r (a @ y) = matchAll r y"
proof (induction a)
  case Nil
  show ?case by simp
next
  case (Cons c a)
  have "matchAll r ([] @ c # (a @ y)) = matchAll r [] @ matchAll r (a @ y)"
    by (rule matchAll_separator) (use assms Cons.prems in auto)
  then show ?case using Cons by (simp add: matchAll_Nil assms(2))
qed

lemma matchAll_spaces_right:
  assumes "\<And>c. is_space c \<Longrightarrow> rx_avoids c r" "\<And>pv. rx_match r pv [] = []"
  shows "\<forall>c\<in>set b. is_space c \<Longrightarrow> matchAll r (y @ b) = matchAll r y"
proof (cases b)
  case Nil
  then show ?thesis by simp
next
  case (Cons c b')
  assume sp: "\<forall>c\<in>set b. is_space c"
  have "matchAll r (y @ c # b') = matchAll r y @ matchAll r b'"
    by (rule matchAll_separator) (use assms sp Cons in auto)
  moreover have "matchAll r (b' @ []) = matchAll r []"
    by (rule matchAll_spaces_left[OF assms]) (use sp Cons in auto)
  ultimately show ?thesis using Cons by (simp add: matchAll_Nil assms(2))
qed

lemma matchAll_trim:
  assumes "\<And>c. is_space c \<Longrightarrow> rx_avoids c r" "\<And>pv. rx_match r pv [] = []"
  shows "matchAll r (js_trim x) = matchAll r x"
proof -
  obtain a b where ab: "x = a @ js_trim x @ b" "\<forall>c\<in>set a. is_space c" "\<forall>c\<in>set b. is_space c"
    using js_trim_decomp by blast
  have "matchAll r (a @ (js_trim x @ b)) = matchAll r (js_trim x @ b)"
    by (rule matchAll_spaces_left[OF assms ab(2)])
  also have "\<dots> = matchAll r (js_trim x)"
    by (rule matchAll_spaces_right[OF assms ab(3)])
  finally show ?thesis using ab(1) by simp
qed

text \<open>
  An expression that consumes no white space and matches no empty string finds in a text
  the matches it finds in the lines of the text, in order.
\<close>

lemma matchAll_lines:
  assumes "\<And>c. is_space c \<Longrightarrow> rx_avoids c r" "\<And>pv. rx_match r pv [] = []"
  shows "matchAll r s = concat (map (matchAll r) (lines_of s))"
proof -
  have nl: "rx_avoids nl r" using assms(1) is_space_simps(2) by blast
  have "\<And>xs. concat (map (matchAll r) (filter (\<lambda>l. length l > 0) (map js_trim xs))) = concat
      (map (matchAll r) xs)"
  proof -
    fix xs :: "jsstring list"
    show "concat (map (matchAll r) (filter (\<lambda>l. length l > 0) (map js_trim xs))) =
      concat (map (matchAll r) xs)"
    proof (induction xs)
      case Nil
      show ?case by simp
    next
      case (Cons x xs)
      have t: "matchAll r (js_trim x) = matchAll r x" by (rule matchAll_trim[OF assms])
      show ?case
      proof (cases "js_trim x = []")
        case True
        then have "matchAll r x = []" using t matchAll_Nil[OF assms(2)] by simp
        with True Cons show ?thesis by simp
      next
        case False
        then show ?thesis using Cons t by simp
      qed
    qed
  qed
  then show ?thesis using matchAll_split[OF nl assms(2), of s] by (simp add: lines_of_def)
qed

subsection \<open>A match stays a match when the text goes on\<close>

lemma rx_match_extend:
  "wordb_free r \<Longrightarrow> (pv1, s1) \<in> set (rx_match r pv s) \<Longrightarrow>
   \<exists>pv2. (pv2, s1 @ t) \<in> set (rx_match r pv' (s @ t))"
proof (induction r arbitrary: pv pv' s pv1 s1)
  case Eps
  then show ?case by simp
next
  case (Chr p)
  then show ?case by (cases s) (auto split: if_splits)
next
  case (Seq a b)
  from Seq.prems obtain pvm sm where 1: "(pvm, sm) \<in> set (rx_match a pv s)"
    and 2: "(pv1, s1) \<in> set (rx_match b pvm sm)" by auto
  have wa: "wordb_free a" and wb: "wordb_free b" using Seq.prems by auto
  from Seq.IH(1)[OF wa 1, of pv'] obtain pvm' where 3: "(pvm', sm @ t) \<in> set
      (rx_match a pv' (s @ t))"
    by blast
  from Seq.IH(2)[OF wb 2, of pvm'] obtain pv2 where "(pv2, s1 @ t) \<in> set (rx_match b pvm' (sm @ t))"
    by blast
  with 3 show ?case by force
next
  case (Alt a b)
  have wa: "wordb_free a" and wb: "wordb_free b" using Alt.prems by auto
  from Alt.prems consider "(pv1, s1) \<in> set (rx_match a pv s)" | "(pv1, s1) \<in> set (rx_match b pv s)"
    by auto
  then show ?case
  proof cases
    case 1
    from Alt.IH(1)[OF wa 1, of pv'] show ?thesis by auto
  next
    case 2
    from Alt.IH(2)[OF wb 2, of pv'] show ?thesis by auto
  qed
next
  case (Opt a)
  have wa: "wordb_free a" using Opt.prems by auto
  from Opt.prems consider "(pv1, s1) \<in> set (rx_match a pv s)" | "s1 = s"
    by auto
  then show ?case
  proof cases
    case 1
    from Opt.IH[OF wa 1, of pv'] show ?thesis by auto
  next
    case 2
    then show ?thesis by auto
  qed
next
  case (Rep p m n)
  let ?k = "length (takeWhile p s)"
  let ?k' = "length (takeWhile p (s @ t))"
  let ?hi = "case n of None \<Rightarrow> ?k | Some n' \<Rightarrow> min ?k n'"
  let ?hi' = "case n of None \<Rightarrow> ?k' | Some n' \<Rightarrow> min ?k' n'"
  from Rep.prems obtain j where j: "m \<le> j" "j \<le> ?hi" "s1 = drop j s"
    by (auto simp: Let_def)
  have "?k \<le> ?k'"
    using length_takeWhile_le[of p s] by (auto simp: takeWhile_append)
  then have hh: "?hi \<le> ?hi'" by (cases n) auto
  have "?hi \<le> length s" using length_takeWhile_le[of p s] by (cases n) auto
  then have d: "drop j (s @ t) = s1 @ t" using j by simp
  define f where "f = (\<lambda>j. (if j = 0 then pv' else Some ((s @ t) ! (j - 1)), drop j (s @ t)))"
  have mem: "j \<in> set (rev [m..<Suc ?hi'])" using j hh by auto
  have "rx_match (Rep p m n) pv' (s @ t) = map f (rev [m..<Suc ?hi'])"
    by (simp add: Let_def f_def)
  then have "f j \<in> set (rx_match (Rep p m n) pv' (s @ t))"
    using mem by (metis image_eqI set_map)
  moreover have "snd (f j) = s1 @ t" using d by (simp add: f_def)
  ultimately show ?case by (metis prod.collapse)
next
  case WordB
  then show ?case by simp
qed

lemma rx_match_search: "rx_match r pv s \<noteq> [] \<Longrightarrow> rx_search r pv s"
  by (cases s) auto

lemma rx_search_split:
  "rx_search r pv x \<Longrightarrow> \<exists>u v pv1. x = u @ v \<and> rx_match r pv1 v \<noteq> []"
proof (induction x arbitrary: pv)
  case Nil
  then show ?case by auto
next
  case (Cons c cs)
  show ?case
  proof (cases "rx_match r pv (c # cs) = []")
    case False
    then have "c # cs = [] @ (c # cs) \<and> rx_match r pv (c # cs) \<noteq> []" by simp
    then show ?thesis by blast
  next
    case True
    with Cons.prems have "rx_search r (Some c) cs" by simp
    from Cons.IH[OF this] obtain u v pv1 where "cs = u @ v" "rx_match r pv1 v \<noteq> []" by blast
    then have "c # cs = (c # u) @ v \<and> rx_match r pv1 v \<noteq> []" by simp
    then show ?thesis by blast
  qed
qed

lemma rx_search_prefix:
  assumes "wordb_free r" "\<And>pv. rx_match r pv v \<noteq> []"
  shows "rx_search r pv (w @ v)"
proof (induction w arbitrary: pv)
  case Nil
  show ?case using rx_match_search[OF assms(2)] by simp
next
  case (Cons c w)
  then show ?case by simp
qed

lemma rx_search_part:
  assumes "wordb_free r" "rx_search r pv x"
  shows "rx_search r pv' (a @ x @ b)"
proof -
  from rx_search_split[OF assms(2)] obtain u v pv1 where uv: "x = u @ v" "rx_match r pv1 v \<noteq> []"
    by blast
  then obtain pv2 s2 where "(pv2, s2) \<in> set (rx_match r pv1 v)"
    by (cases "rx_match r pv1 v") auto
  then have "\<And>pv3. \<exists>pv4. (pv4, s2 @ b) \<in> set (rx_match r pv3 (v @ b))"
    using rx_match_extend[OF assms(1), of pv2 s2 pv1 v b] by blast
  then have "\<And>pv3. rx_match r pv3 (v @ b) \<noteq> []"
    by (metis empty_iff list.set(1))
  then have "rx_search r pv' ((a @ u) @ (v @ b))"
    by (rule rx_search_prefix[OF assms(1)])
  then show ?thesis using uv by simp
qed

lemma rx_test_line:
  assumes "wordb_free r" "\<not> rx_test r s" "l \<in> set (lines_of s)"
  shows "\<not> rx_test r l"
proof
  assume "rx_test r l"
  moreover obtain a b where "s = a @ l @ b" using lines_of_part[OF assms(3)] by blast
  ultimately have "rx_test r s" using rx_search_part[OF assms(1), of None l None a b]
    by (simp add: rx_test_def)
  with assms(2) show False by simp
qed

subsection \<open>A match is a match of the matched text alone\<close>

lemma rx_match_restrict:
  "wordb_free r \<Longrightarrow> (pv1, s1) \<in> set (rx_match r pv (w @ s1)) \<Longrightarrow>
   \<exists>pv2. (pv2, []) \<in> set (rx_match r pv' w)"
proof (induction r arbitrary: pv pv' w pv1 s1)
  case Eps
  then show ?case by simp
next
  case (Chr p)
  then show ?case by (cases w) (auto split: if_splits list.splits)
next
  case (Seq a b)
  from Seq.prems obtain pvm sm where 1: "(pvm, sm) \<in> set (rx_match a pv (w @ s1))"
    and 2: "(pv1, s1) \<in> set (rx_match b pvm sm)" by auto
  have wa: "wordb_free a" and wb: "wordb_free b" using Seq.prems by auto
  from rx_match_suffix[OF 1] obtain u where u: "w @ s1 = u @ sm" by blast
  from rx_match_suffix[OF 2] obtain v where v: "sm = v @ s1" by blast
  from u v have w: "w = u @ v" by simp
  from 1 u have "(pvm, sm) \<in> set (rx_match a pv (u @ sm))" by simp
  from Seq.IH(1)[OF wa this, of pv'] obtain pa where "(pa, []) \<in> set (rx_match a pv' u)" by blast
  from rx_match_extend[OF wa this, of v pv'] obtain pa' where
    3: "(pa', v) \<in> set (rx_match a pv' (u @ v))" by auto
  from 2 v have "(pv1, s1) \<in> set (rx_match b pvm (v @ s1))" by simp
  from Seq.IH(2)[OF wb this, of pa'] obtain pb where "(pb, []) \<in> set (rx_match b pa' v)" by blast
  with 3 w show ?case by force
next
  case (Alt a b)
  have wa: "wordb_free a" and wb: "wordb_free b" using Alt.prems by auto
  from Alt.prems consider "(pv1, s1) \<in> set (rx_match a pv (w @ s1))"
    | "(pv1, s1) \<in> set (rx_match b pv (w @ s1))"
    by auto
  then show ?case
  proof cases
    case 1
    from Alt.IH(1)[OF wa 1, of pv'] show ?thesis by auto
  next
    case 2
    from Alt.IH(2)[OF wb 2, of pv'] show ?thesis by auto
  qed
next
  case (Opt a)
  have wa: "wordb_free a" using Opt.prems by auto
  from Opt.prems consider "(pv1, s1) \<in> set (rx_match a pv (w @ s1))" | "s1 = w @ s1"
    by auto
  then show ?case
  proof cases
    case 1
    from Opt.IH[OF wa 1, of pv'] show ?thesis by auto
  next
    case 2
    then have "w = []" by simp
    then show ?thesis by auto
  qed
next
  case (Rep p m n)
  let ?s = "w @ s1"
  let ?k = "length (takeWhile p ?s)"
  let ?hi = "case n of None \<Rightarrow> ?k | Some n' \<Rightarrow> min ?k n'"
  let ?k' = "length (takeWhile p w)"
  let ?hi' = "case n of None \<Rightarrow> ?k' | Some n' \<Rightarrow> min ?k' n'"
  from Rep.prems obtain j where j: "m \<le> j" "j \<le> ?hi" "s1 = drop j ?s"
    by (auto simp: Let_def)
  have hk: "?hi \<le> ?k" by (cases n) auto
  have kl: "?k \<le> length ?s" by (rule length_takeWhile_le)
  have "length s1 = length ?s - j" using j(3) by (metis length_drop)
  then have jw: "j = length w" using j(2) hk kl by simp
  have "\<forall>c\<in>set (take ?k ?s). p c"
    by (metis set_takeWhileD takeWhile_eq_take)
  moreover have "take (length w) (take ?k ?s) = w" using jw j(2) hk by (simp add: min_def)
  ultimately have "\<forall>c\<in>set w. p c" by (metis in_set_takeD)
  then have "takeWhile p w = w" by (simp add: takeWhile_eq_all_conv)
  then have k': "?k' = length w" by (rule arg_cong)
  have jn: "j \<le> ?hi'" using j(2) jw k' by (cases n) auto
  define f where "f = (\<lambda>j. (if j = 0 then pv' else Some (w ! (j - 1)), drop j w))"
  have mem: "j \<in> set (rev [m..<Suc ?hi'])" using j(1) jn by auto
  have "rx_match (Rep p m n) pv' w = map f (rev [m..<Suc ?hi'])"
    by (simp add: Let_def f_def)
  then have "f j \<in> set (rx_match (Rep p m n) pv' w)"
    using mem by (metis image_eqI set_map)
  moreover have "snd (f j) = []" using jw by (simp add: f_def)
  ultimately show ?case by (metis prod.collapse)
next
  case WordB
  then show ?case by simp
qed

text \<open>Every match a scan reports is matched by the expression on its own.\<close>

lemma rx_scan_matches_match:
  assumes "wordb_free r"
  shows "list_all (\<lambda>m. rx_match r pv' m \<noteq> [])
     (concat (map (case_sum (\<lambda>c. []) (\<lambda>m. [m])) (rx_scan r pv s k)))"
proof (induction s arbitrary: pv k)
  case Nil
  show ?case
  proof (cases k)
    case 0
    show ?thesis
    proof (cases "rx_match r pv [] = []")
      case True
      then show ?thesis by (simp add: rx_scan_Nil_none)
    next
      case False
      then have "rx_match r pv' [] \<noteq> []" using wordb_free_match_Nil[OF assms] by blast
      with False 0 show ?thesis by (simp add: rx_scan_Nil_hit)
    qed
  next
    case (Suc j)
    then show ?thesis by (simp add: rx_scan_Nil_skip)
  qed
next
  case (Cons c cs)
  show ?case
  proof (cases k)
    case (Suc j)
    then show ?thesis using Cons[of "Some c" j] by (simp add: rx_scan_Cons_skip)
  next
    case 0
    show ?thesis
    proof (cases rule: rx_scan_Cons_cases[of r pv c cs])
      case none
      then show ?thesis using Cons[of "Some c" 0] 0 by simp
    next
      case (empty pv1 s1 ms)
      from empty(1) have mem: "(pv1, s1) \<in> set (rx_match r pv (c # cs))" by simp
      from rx_match_suffix[OF mem] obtain u where u: "c # cs = u @ s1" by blast
      then have "length (c # cs) = length u + length s1" by (metis length_append)
      with empty(2) have "u = []" by simp
      with mem u have "(pv1, s1) \<in> set (rx_match r pv ([] @ s1))" by simp
      from rx_match_restrict[OF assms this, of pv'] have "rx_match r pv' [] \<noteq> []" by auto
      then show ?thesis using Cons[of "Some c" 0] 0 empty by simp
    next
      case (hit pv1 s1 ms)
      let ?n = "Suc (length cs) - length s1"
      from hit(1) have mem: "(pv1, s1) \<in> set (rx_match r pv (c # cs))" by simp
      from rx_match_suffix[OF mem] obtain u where u: "c # cs = u @ s1" by blast
      then have "length u = ?n" by (metis add_diff_cancel_right' length_Cons length_append)
      then have "take ?n (c # cs) = u" using u by (metis append_eq_conv_conj)
      moreover from mem u have "(pv1, s1) \<in> set (rx_match r pv (u @ s1))" by simp
      from rx_match_restrict[OF assms this, of pv'] have "rx_match r pv' u \<noteq> []" by auto
      ultimately show ?thesis using Cons[of "Some c" "length cs - length s1"] 0 hit by simp
    qed
  qed
qed

lemma matchAll_matches:
  assumes "wordb_free r" "m \<in> set (matchAll r s)"
  shows "rx_test r m"
proof -
  from rx_scan_matches_match[OF assms(1), of None None s 0] assms(2)
  have "rx_match r None m \<noteq> []" by (simp add: matchAll_def list_all_iff)
  then show ?thesis using rx_match_search[of r None m] by (simp add: rx_test_def)
qed

subsection \<open>Replacing on both sides of a separator\<close>

lemma replaceAll_separator:
  assumes "rx_avoids c r" "\<And>pv. rx_match r pv [] = []"
  shows "replaceAll r rep (u @ c # b) = replaceAll r rep u @ c # replaceAll r rep b"
proof -
  have "rx_scan r None (u @ c # b) 0 = rx_scan r None u 0 @ Inl c # rx_scan r None b 0"
    using rx_scan_separator[OF assms, of 0 u None b]
      wordb_free_scan[OF rx_avoids_wordb_free[OF assms(1)], of "Some c" b 0 None] by simp
  then show ?thesis by (simp add: replaceAll_def)
qed

lemma replaceAll_Nil:
  assumes "\<And>pv. rx_match r pv [] = []"
  shows "replaceAll r rep [] = []"
  by (simp add: replaceAll_def rx_scan_Nil_none assms)

lemma replaceAll_join:
  assumes "rx_avoids c r" "\<And>pv. rx_match r pv [] = []"
  shows "replaceAll r rep (js_join [c] xs) = js_join [c] (map (replaceAll r rep) xs)"
proof (induction "[c]" xs rule: js_join.induct)
  case 1
  show ?case by (simp add: replaceAll_Nil assms(2))
next
  case (2 x)
  show ?case by simp
next
  case (3 x y ys)
  then show ?case using replaceAll_separator[OF assms, of rep x "js_join [c] (y # ys)"] by simp
qed

subsection \<open>Collapsing spaces keeps the matches\<close>

lemma collapse_prefix:
  assumes "\<forall>c\<in>set u. \<not> p c" "0 < m"
  shows "replaceAll (Rep p m None) rep (u @ v) = u @ replaceAll (Rep p m None) rep v"
  using assms(1)
proof (induction u)
  case Nil
  show ?case by simp
next
  case (Cons c u)
  then have "length (takeWhile p (c # u @ v)) < m" using assms(2) by simp
  from replaceAll_Rep_char[OF this] Cons show ?case by simp
qed

lemma collapse_space:
  "replaceAll (Rep (is_char d) 2 None) [d] (d # b) =
     d # replaceAll (Rep (is_char d) 2 None) [d] (dropWhile (is_char d) b)"
proof (cases "b = [] \<or> \<not> is_char d (hd b)")
  case True
  then have 1: "dropWhile (is_char d) b = b" by (cases b) auto
  from True have "length (takeWhile (is_char d) (d # b)) < 2"
    by (cases b) (auto simp: is_char_def)
  from replaceAll_Rep_char[OF this] 1 show ?thesis by simp
next
  case False
  then have "2 \<le> length (takeWhile (is_char d) (d # b))"
    by (cases b) (auto simp: is_char_def)
  from replaceAll_Rep_run[OF _ this, of "[d]"] show ?thesis by (simp add: is_char_def)
qed

lemma matchAll_collapse:
  assumes "rx_avoids d r" "\<And>pv. rx_match r pv [] = []"
  shows "matchAll r (replaceAll (Rep (is_char d) 2 None) [d] s) = matchAll r s"
proof (induction "length s" arbitrary: s rule: less_induct)
  case less
  show ?case
  proof (cases "d \<in> set s")
    case False
    then have "\<forall>c\<in>set s. \<not> is_char d c" by (auto simp: is_char_def)
    from collapse_prefix[OF this, of 2 "[d]" "[]"] show ?thesis
      by (simp add: replaceAll_Rep_Nil)
  next
    case True
    then obtain u b where s: "s = u @ d # b" "d \<notin> set u" by (meson split_list_first)
    let ?b = "dropWhile (is_char d) b"
    have "\<forall>c\<in>set u. \<not> is_char d c" using s(2) by (auto simp: is_char_def)
    from collapse_prefix[OF this, of 2 "[d]" "d # b"]
    have c: "replaceAll (Rep (is_char d) 2 None) [d] s =
        u @ d # replaceAll (Rep (is_char d) 2 None) [d] ?b"
      by (simp add: s(1) collapse_space)
    have "length ?b < length s" using length_dropWhile_le[of "is_char d" b] s(1) by simp
    from less[OF this] have ih: "matchAll r (replaceAll (Rep (is_char d) 2 None) [d] ?b) = matchAll
        r ?b" .
    have b: "b = takeWhile (is_char d) b @ ?b" by simp
    have "matchAll r b = matchAll r ?b"
    proof -
      have "\<And>a y. \<forall>c\<in>set a. c = d \<Longrightarrow> matchAll r (a @ y) = matchAll r y"
      proof -
        fix a y show "\<forall>c\<in>set a. c = d \<Longrightarrow> matchAll r (a @ y) = matchAll r y"
        proof (induction a)
          case Nil
          show ?case by simp
        next
          case (Cons x a)
          then have "x = d" by simp
          then show ?case
            using matchAll_separator[OF assms, of "[]" "a @ y"] Cons
            by (simp add: matchAll_Nil assms(2))
        qed
      qed
      from this[of "takeWhile (is_char d) b" ?b] show ?thesis
        by (metis b is_char_def set_takeWhileD)
    qed
    then show ?thesis
      using c ih
        matchAll_separator[OF assms, of u b]
        matchAll_separator[OF assms, of u "replaceAll (Rep (is_char d) 2 None) [d] ?b"]
      by (simp add: s(1))
  qed
qed

subsection \<open>The expressions of the parser\<close>

lemmas char_defs = js_def sp_def nl_def is_space_def is_digit_def is_upper_def is_lower_def
  is_alpha_def is_alnum_def is_word_def is_char_def is_one_of_def ci_char_def is_tamil_def
  keep_char_def space_or_dash_def space_dash_dot_def email_local_def email_domain_def
  non_space_def host_char_def

lemmas rx_defs = rx_lit_def rx_lit_ci_def phoneRegex_def emailRegex_def urlRegex_def
  addressKeywords_def at_word_boundary_def matchAll_def replaceAll_def rx_test_def

lemma wordb_free_parser:
  "wordb_free phoneRegex" "wordb_free emailRegex" "wordb_free urlRegex"
  by (simp_all add: phoneRegex_def emailRegex_def urlRegex_def rx_lit_def js_def)

lemma emailRegex_avoids: "is_space c \<Longrightarrow> rx_avoids c emailRegex"
  by (auto simp: emailRegex_def rx_lit_def char_defs)

lemma urlRegex_avoids: "is_space c \<Longrightarrow> rx_avoids c urlRegex"
  by (auto simp: urlRegex_def rx_lit_def char_defs)

lemma emailRegex_not_empty: "rx_match emailRegex pv [] = []"
  by (simp add: emailRegex_def rx_lit_def js_def Let_def)

lemma urlRegex_not_empty: "rx_match urlRegex pv [] = []"
  by (simp add: urlRegex_def rx_lit_def js_def Let_def)

lemma emails_of_lines: "emails_of s = concat (map emails_of (lines_of s))"
  unfolding emails_of_def
  by (rule matchAll_lines) (simp_all add: emailRegex_avoids emailRegex_not_empty)

lemma urls_of_lines: "urls_of s = concat (map urls_of (lines_of s))"
  unfolding urls_of_def
  by (rule matchAll_lines) (simp_all add: urlRegex_avoids urlRegex_not_empty)

section \<open>Cutting urls and emails out of a text\<close>

subsection \<open>The first match of a sequence\<close>

lemma concat_map_hd:
  "concat (map f xs) = y # ys \<Longrightarrow> \<exists>x\<in>set xs. \<exists>zs. f x = y # zs"
proof (induction xs)
  case Nil
  then show ?case by simp
next
  case (Cons x xs)
  then show ?case by (cases "f x") auto
qed

lemma rx_match_Seq_hd:
  assumes "rx_match (Seq a b) pv s = (pv', s') # ms"
  shows "\<exists>pv1 s1 zs. (pv1, s1) \<in> set (rx_match a pv s) \<and> rx_match b pv1 s1 = (pv', s') # zs"
proof -
  from assms have "concat (map (\<lambda>(pv1, s1). rx_match b pv1 s1) (rx_match a pv s)) = (pv', s') # ms"
    by simp
  from concat_map_hd[OF this] show ?thesis by auto
qed

lemma rx_match_Rep_first:
  assumes "rx_match (Rep p m None) pv s = (pv', s') # ms"
  shows "s' = dropWhile p s" "m \<le> length (takeWhile p s)"
proof -
  from assms have "rx_match (Rep p m None) pv s \<noteq> []" by simp
  then show m: "m \<le> length (takeWhile p s)"
    using rx_match_Rep_Nil_iff[of p m pv s] by (simp del: rx_match.simps)
  from rx_match_Rep_hd[OF m, of pv] assms show "s' = dropWhile p s" by auto
qed

text \<open>
  The first match of a url runs up to the next white space: both alternatives end in a
  greedy run of characters other than white space.
\<close>

lemma seq_runs_on:
  assumes "\<And>pv s pv' s' ms. rx_match b pv s = (pv', s') # ms \<Longrightarrow> s' = [] \<or> is_space (hd s')"
    "rx_match (Seq a b) pv s = (pv', s') # ms"
  shows "s' = [] \<or> is_space (hd s')"
  using rx_match_Seq_hd[OF assms(2)] assms(1) by blast

lemma non_space_runs_on:
  assumes "rx_match (Rep non_space m None) pv s = (pv', s') # ms"
  shows "s' = [] \<or> is_space (hd s')"
proof -
  have "s' = dropWhile non_space s" using rx_match_Rep_first(1)[OF assms] .
  then show ?thesis using hd_dropWhile[of non_space s] by (auto simp: non_space_def)
qed

lemma urlRegex_runs_on:
  assumes "rx_match urlRegex pv s = (pv', s') # ms"
  shows "s' = [] \<or> is_space (hd s')"
proof -
  let ?a = "rx_seq [rx_lit ''http'', Opt (rx_lit ''s''), rx_lit ''://'', Rep non_space 1 None]"
  let ?b = "rx_seq [rx_lit ''www.'', Rep host_char 1 None, rx_lit ''.'', Rep is_alpha 2 None,
                Rep non_space 0 None]"
  have a: "s' = [] \<or> is_space (hd s')" if "rx_match ?a pv s = (pv', s') # ms" for pv s pv' s' ms
    using that unfolding rx_seq.simps
    by (intro seq_runs_on[OF seq_runs_on[OF seq_runs_on[OF non_space_runs_on]]])
  have b: "s' = [] \<or> is_space (hd s')" if "rx_match ?b pv s = (pv', s') # ms" for pv s pv' s' ms
    using that unfolding rx_seq.simps
    by (intro seq_runs_on[OF seq_runs_on[OF seq_runs_on[OF seq_runs_on[OF non_space_runs_on]]]])
  have "rx_match urlRegex pv s = rx_match ?a pv s @ rx_match ?b pv s"
    by (simp only: urlRegex_def rx_match.simps(4))
  with assms have "rx_match ?a pv s @ rx_match ?b pv s = (pv', s') # ms" by simp
  then consider zs where "rx_match ?a pv s = (pv', s') # zs"
    | "rx_match ?a pv s = []" "rx_match ?b pv s = (pv', s') # ms"
    by (cases "rx_match ?a pv s") (simp_all del: rx_match.simps)
  then show ?thesis
  proof cases
    case 1
    then show ?thesis by (rule a)
  next
    case 2
    from b[OF 2(2)] show ?thesis .
  qed
qed

subsection \<open>Cutting the urls out of a text\<close>

lemma rx_search_pv: "wordb_free r \<Longrightarrow> rx_search r pv s \<Longrightarrow> rx_search r pv' s"
  using rx_search_part[of r pv s pv' "[]" "[]"] by simp

text \<open>
  In a text without white space a url that starts somewhere runs to the end: what is
  left of the text is a prefix of it, in which no url starts.
\<close>

lemma replaceAll_url_token:
  assumes "\<forall>c\<in>set t. \<not> is_space c"
  shows "(\<exists>m. t = replaceAll urlRegex [] t @ m) \<and> \<not> rx_test urlRegex (replaceAll urlRegex [] t)"
  using assms
proof (induction t)
  case Nil
  show ?case by (simp add: replaceAll_Nil urlRegex_not_empty rx_test_def)
next
  case (Cons c cs)
  note wf = wordb_free_parser(3)
  show ?case
  proof (cases rule: rx_scan_Cons_cases[of urlRegex None c cs])
    case none
    have "rx_scan urlRegex (Some c) cs 0 = rx_scan urlRegex None cs 0"
      by (rule wordb_free_scan[OF wf])
    with none(2) have y: "replaceAll urlRegex [] (c # cs) = c # replaceAll urlRegex [] cs"
      by (simp add: replaceAll_def)
    from Cons obtain m where m: "cs = replaceAll urlRegex [] cs @ m"
      and nt: "\<not> rx_test urlRegex (replaceAll urlRegex [] cs)" by auto
    let ?y = "replaceAll urlRegex [] cs"
    have "rx_match urlRegex None (c # ?y) = []"
    proof (rule ccontr)
      assume "rx_match urlRegex None (c # ?y) \<noteq> []"
      then obtain pv1 s1 where "(pv1, s1) \<in> set (rx_match urlRegex None (c # ?y))"
        by (cases "rx_match urlRegex None (c # ?y)") auto
      from rx_match_extend[OF wf this, of m None] have "rx_match urlRegex None (c # ?y @ m) \<noteq> []"
        by auto
      with m none(1) show False by simp
    qed
    moreover have "\<not> rx_search urlRegex (Some c) ?y"
      using nt rx_search_pv[OF wf, of "Some c" ?y None] by (auto simp: rx_test_def)
    ultimately have "\<not> rx_test urlRegex (c # ?y)" by (simp add: rx_test_def)
    moreover have "c # cs = (c # ?y) @ m" using m by simp
    ultimately show ?thesis unfolding y by blast
  next
    case (empty pv1 s1 ms)
    then have mem: "(pv1, s1) \<in> set (rx_match urlRegex None (c # cs))" by simp
    from rx_match_suffix[OF mem] obtain u where u: "c # cs = u @ s1" by blast
    then have "length (c # cs) = length u + length s1" by (metis length_append)
    with empty(2) have "u = []" by simp
    with mem u have "(pv1, s1) \<in> set (rx_match urlRegex None ([] @ s1))" by simp
    from rx_match_restrict[OF wf this, of None] show ?thesis by (simp add: urlRegex_not_empty)
  next
    case (hit pv1 s1 ms)
    then have mem: "(pv1, s1) \<in> set (rx_match urlRegex None (c # cs))" by simp
    from rx_match_suffix[OF mem] obtain u where u: "c # cs = u @ s1" by blast
    have "s1 = [] \<or> is_space (hd s1)" using urlRegex_runs_on[OF hit(1)] .
    moreover have "s1 \<noteq> [] \<Longrightarrow> hd s1 \<in> set (c # cs)" using u
        by (metis hd_in_set in_set_conv_decomp Un_iff set_append)
    ultimately have s1: "s1 = []" using Cons.prems by blast
    have "rx_scan urlRegex (Some c) (cs @ []) (length cs) = rx_scan urlRegex None [] 0"
      by (rule rx_scan_skip[OF wf])
    then have "rx_scan urlRegex (Some c) cs (length cs) = []"
      by (simp add: rx_scan_Nil_none urlRegex_not_empty)
    with hit(3) s1 have "replaceAll urlRegex [] (c # cs) = []"
      by (simp add: replaceAll_def)
    then show ?thesis by (simp add: rx_test_def urlRegex_not_empty)
  qed
qed

lemma rx_test_prefix:
  assumes "wordb_free r" "\<not> rx_test r (y @ m)"
  shows "\<not> rx_test r y"
  using assms rx_search_part[of r None y None "[]" m] by (auto simp: rx_test_def)

lemma matchAll_concat_Nil:
  assumes "rx_avoids c r" "\<And>pv. rx_match r pv [] = []"
  shows "matchAll r (js_join [c] xs) = [] \<longleftrightarrow> (\<forall>x\<in>set xs. \<not> rx_test r x)"
  by (simp add: matchAll_join[OF assms] matchAll_Nil_iff)

text \<open>
  Where the space is the only white space, cutting the urls out leaves a text without a
  url, and without a match of any expression that consumes no space and found none
  before.
\<close>

lemma replaceAll_url_free:
  assumes "\<forall>c\<in>set s. is_space c \<longrightarrow> c = sp"
  shows "\<not> rx_test urlRegex (replaceAll urlRegex [] s)"
    and "rx_avoids sp r \<Longrightarrow> (\<And>pv. rx_match r pv [] = []) \<Longrightarrow> \<not> rx_test r s \<Longrightarrow>
         \<not> rx_test r (replaceAll urlRegex [] s)"
proof -
  let ?ts = "js_split sp s"
  have av: "rx_avoids sp urlRegex" by (simp add: urlRegex_avoids is_space_simps)
  have tok: "\<forall>c\<in>set t. \<not> is_space c" if "t \<in> set ?ts" for t
    using js_split_no_sep[OF that] js_split_subset[OF that] assms by auto
  have r: "replaceAll urlRegex [] s = js_join [sp] (map (replaceAll urlRegex []) ?ts)"
    using replaceAll_join[OF av urlRegex_not_empty, of "[]" ?ts] by (simp add: js_join_split)
  have "matchAll urlRegex (replaceAll urlRegex [] s) = []"
    unfolding r matchAll_concat_Nil[OF av urlRegex_not_empty]
    using replaceAll_url_token[OF tok] by auto
  then show "\<not> rx_test urlRegex (replaceAll urlRegex [] s)" by (simp add: matchAll_Nil_iff)
  assume ra: "rx_avoids sp r" and ne: "\<And>pv. rx_match r pv [] = []" and nt: "\<not> rx_test r s"
  have "matchAll r (js_join [sp] ?ts) = []" using nt by (simp add: js_join_split matchAll_Nil_iff)
  then have all: "\<forall>t\<in>set ?ts. \<not> rx_test r t" unfolding matchAll_concat_Nil[OF ra ne] .
  have "\<not> rx_test r (replaceAll urlRegex [] t)" if "t \<in> set ?ts" for t
  proof -
    from replaceAll_url_token[OF tok[OF that]] obtain m where "t = replaceAll urlRegex [] t @ m"
        by blast
    then show ?thesis
      using rx_test_prefix[OF rx_avoids_wordb_free[OF ra], of "replaceAll urlRegex [] t" m] all that
      by auto
  qed
  then have "matchAll r (replaceAll urlRegex [] s) = []"
    unfolding r matchAll_concat_Nil[OF ra ne] by auto
  then show "\<not> rx_test r (replaceAll urlRegex [] s)" by (simp add: matchAll_Nil_iff)
qed

subsection \<open>Where an email starts\<close>

lemma emailRegex_eq:
  "emailRegex =
     Seq (Rep email_local 1 None) (Seq (Chr (is_char 64)) (Seq (Rep email_domain 1 None)
       (Seq (Chr (is_char 46)) (Rep is_alpha 2 None))))"
  by (simp add: emailRegex_def rx_lit_def js_def)

lemma rx_match_Chr_Seq:
  "rx_match (Seq (Chr p) b) pv s = (case s of [] \<Rightarrow> [] | c # cs \<Rightarrow> if p c then rx_match b (Some c) cs
      else [])"
  by (cases s) auto

lemma dot_tld_match:
  "rx_match (Seq (Chr (is_char 46)) (Rep is_alpha 2 None)) pv s \<noteq> [] \<longleftrightarrow> dot_tld s"
  unfolding rx_match_Chr_Seq dot_tld_def two_alpha_def
  by (cases s) (auto simp: rx_match_Rep_Nil_iff is_char_def not_less simp del: rx_match.simps)

lemma concat_map_Nil_iff: "concat (map f xs) \<noteq> [] \<longleftrightarrow> (\<exists>x\<in>set xs. f x \<noteq> [])"
  by (induction xs) auto

lemma rx_match_Rep_Seq:
  "rx_match (Seq (Rep p m None) b) pv s \<noteq> [] \<longleftrightarrow>
     (\<exists>j. m \<le> j \<and> j \<le> length (takeWhile p s) \<and>
          rx_match b (if j = 0 then pv else Some (s ! (j - 1))) (drop j s) \<noteq> [])"
proof -
  define h where "h = (\<lambda>j. rx_match b (if j = 0 then pv else Some (s ! (j - 1))) (drop j s))"
  define k where "k = length (takeWhile p s)"
  have "rx_match (Seq (Rep p m None) b) pv s = concat (map h (rev [m..<Suc k]))"
    unfolding h_def k_def by (simp add: Let_def comp_def del: upt_Suc)
  then have "rx_match (Seq (Rep p m None) b) pv s \<noteq> [] \<longleftrightarrow> (\<exists>x\<in>set (rev [m..<Suc k]). h x \<noteq> [])"
    using concat_map_Nil_iff[of h "rev [m..<Suc k]"] by (simp del: rx_match.simps upt_Suc)
  also have "\<dots> \<longleftrightarrow> (\<exists>j. m \<le> j \<and> j \<le> k \<and> h j \<noteq> [])"
    by (auto simp del: upt_Suc)
  finally show ?thesis unfolding h_def k_def .
qed
lemma rx_match_Rep_Seq_free:
  assumes "wordb_free b"
  shows "rx_match (Seq (Rep p m None) b) pv s \<noteq> [] \<longleftrightarrow>
     (\<exists>j. m \<le> j \<and> j \<le> length (takeWhile p s) \<and> rx_match b pv' (drop j s) \<noteq> [])"
  unfolding rx_match_Rep_Seq using wordb_free_match_Nil[OF assms] by blast

lemma dom_tail_iff:
  "dom_tail s \<longleftrightarrow> (\<exists>j. j \<le> length (takeWhile email_domain s) \<and> dot_tld (drop j s))"
proof (induction s)
  case Nil
  show ?case by (simp add: dot_tld_def)
next
  case (Cons c cs)
  show ?case
  proof
    assume "dom_tail (c # cs)"
    then consider "dot_tld (c # cs)" | "email_domain c" "dom_tail cs" by auto
    then show "\<exists>j. j \<le> length (takeWhile email_domain (c # cs)) \<and> dot_tld (drop j (c # cs))"
    proof cases
      case 1
      then have "0 \<le> length (takeWhile email_domain (c # cs)) \<and> dot_tld (drop 0 (c # cs))" by simp
      then show ?thesis by blast
    next
      case 2
      with Cons obtain j where "j \<le> length (takeWhile email_domain cs)" "dot_tld (drop j cs)"
          by blast
      then have "Suc j \<le> length (takeWhile email_domain (c # cs)) \<and> dot_tld (drop (Suc j) (c # cs))"
        using 2(1) by simp
      then show ?thesis by blast
    qed
  next
    assume "\<exists>j. j \<le> length (takeWhile email_domain (c # cs)) \<and> dot_tld (drop j (c # cs))"
    then obtain j where j: "j \<le> length (takeWhile email_domain (c # cs))" "dot_tld
        (drop j (c # cs))"
      by blast
    show "dom_tail (c # cs)"
    proof (cases j)
      case 0
      with j show ?thesis by simp
    next
      case (Suc i)
      with j have "email_domain c" by (auto split: if_splits)
      moreover from Suc j have "i \<le> length (takeWhile email_domain cs)" "dot_tld (drop i cs)"
        by (auto split: if_splits)
      ultimately show ?thesis using Cons by auto
    qed
  qed
qed

lemma dom_head_match:
  "rx_match (Seq (Rep email_domain 1 None) (Seq (Chr (is_char 46)) (Rep is_alpha 2 None))) pv s \<noteq> []
     \<longleftrightarrow> dom_head s"
proof -
  have wf: "wordb_free (Seq (Chr (is_char 46)) (Rep is_alpha 2 None))" by simp
  have "(\<exists>j. 1 \<le> j \<and> j \<le> length (takeWhile email_domain s) \<and> dot_tld (drop j s)) \<longleftrightarrow> dom_head s"
  proof (cases s)
    case Nil
    then show ?thesis by (simp add: dom_head_def dot_tld_def)
  next
    case (Cons d ds)
    have "(\<exists>j. 1 \<le> j \<and> j \<le> length (takeWhile email_domain (d # ds)) \<and> dot_tld (drop j (d # ds))) \<longleftrightarrow>
        email_domain d \<and> (\<exists>i. i \<le> length (takeWhile email_domain ds) \<and> dot_tld (drop i ds))"
    proof
      assume "\<exists>j. 1 \<le> j \<and> j \<le> length (takeWhile email_domain (d # ds)) \<and> dot_tld (drop j (d # ds))"
      then obtain j where j: "1 \<le> j" "j \<le> length (takeWhile email_domain (d # ds))"
        "dot_tld (drop j (d # ds))" by blast
      then obtain i where i: "j = Suc i" by (cases j) auto
      with j show "email_domain d \<and> (\<exists>i. i \<le> length (takeWhile email_domain ds) \<and>
          dot_tld (drop i ds))"
        by (auto split: if_splits)
    next
      assume a: "email_domain d \<and> (\<exists>i. i \<le> length (takeWhile email_domain ds) \<and>
          dot_tld (drop i ds))"
      then obtain i where "i \<le> length (takeWhile email_domain ds)" "dot_tld (drop i ds)" by blast
      with a have "1 \<le> Suc i \<and> Suc i \<le> length (takeWhile email_domain (d # ds)) \<and>
          dot_tld (drop (Suc i) (d # ds))" by simp
      then show "\<exists>j. 1 \<le> j \<and> j \<le> length (takeWhile email_domain (d # ds)) \<and>
          dot_tld (drop j (d # ds))"
        by blast
    qed
    then show ?thesis using Cons by (simp add: dom_head_def dom_tail_iff[of ds])
  qed
  then show ?thesis
    unfolding rx_match_Rep_Seq_free[OF wf, of email_domain 1 pv s pv] dot_tld_match .
qed

lemma email_at_Nil: "\<not> email_at []"
  by (simp add: email_at_def emailRegex_not_empty)

lemma email_at_iff:
  "email_at s \<longleftrightarrow>
     (\<exists>j. 1 \<le> j \<and> j \<le> length (takeWhile email_local s) \<and>
          (\<exists>s2. drop j s = 64 # s2 \<and> dom_head s2))"
proof -
  let ?r1 = "Seq (Chr (is_char 64)) (Seq (Rep email_domain 1 None)
       (Seq (Chr (is_char 46)) (Rep is_alpha 2 None)))"
  have wf: "wordb_free ?r1" by simp
  have r1: "rx_match ?r1 pv t \<noteq> [] \<longleftrightarrow> (\<exists>s2. t = 64 # s2 \<and> dom_head s2)" for pv t
    unfolding rx_match_Chr_Seq
    by (cases t) (auto simp: dom_head_match[unfolded One_nat_def] is_char_def simp del:
        rx_match.simps)
  show ?thesis
    unfolding email_at_def emailRegex_eq rx_match_Rep_Seq_free[OF wf, of email_local 1 None s None]
        r1 ..
qed

lemma email_at_Cons:
  "email_at (c # cs) \<longleftrightarrow> email_local c \<and> (email_at cs \<or> (\<exists>s2. cs = 64 # s2 \<and> dom_head s2))"
proof
  assume "email_at (c # cs)"
  then obtain j s2 where j: "1 \<le> j" "j \<le> length (takeWhile email_local (c # cs))"
    "drop j (c # cs) = 64 # s2" "dom_head s2" unfolding email_at_iff by blast
  then obtain i where i: "j = Suc i" by (cases j) auto
  with j have c: "email_local c" and il: "i \<le> length (takeWhile email_local cs)"
    and d: "drop i cs = 64 # s2" by (auto split: if_splits)
  show "email_local c \<and> (email_at cs \<or> (\<exists>s2. cs = 64 # s2 \<and> dom_head s2))"
  proof (cases i)
    case 0
    with d j(4) c show ?thesis by auto
  next
    case (Suc k)
    then have "1 \<le> i" by simp
    with il d j(4) have "email_at cs" unfolding email_at_iff by blast
    with c show ?thesis by simp
  qed
next
  assume a: "email_local c \<and> (email_at cs \<or> (\<exists>s2. cs = 64 # s2 \<and> dom_head s2))"
  then consider "email_at cs" | s2 where "cs = 64 # s2" "dom_head s2" by blast
  then show "email_at (c # cs)"
  proof cases
    case 1
    then obtain j s2 where j: "1 \<le> j" "j \<le> length (takeWhile email_local cs)"
      "drop j cs = 64 # s2" "dom_head s2" unfolding email_at_iff by blast
    with a have "1 \<le> Suc j \<and> Suc j \<le> length (takeWhile email_local (c # cs)) \<and>
        drop (Suc j) (c # cs) = 64 # s2 \<and> dom_head s2" by simp
    then show ?thesis unfolding email_at_iff by blast
  next
    case 2
    with a have "1 \<le> Suc 0 \<and> Suc 0 \<le> length (takeWhile email_local (c # cs)) \<and>
        drop (Suc 0) (c # cs) = 64 # s2 \<and> dom_head s2" by simp
    then show ?thesis unfolding email_at_iff by blast
  qed
qed

subsection \<open>The first match of a greedy run followed by an expression\<close>

lemma rx_match_Rep_Seq_eq:
  "rx_match (Seq (Rep p m None) b) pv s =
     concat (map (\<lambda>j. rx_match b (if j = 0 then pv else Some (s ! (j - 1))) (drop j s))
       (rev [m..<Suc (length (takeWhile p s))]))"
  by (simp add: Let_def comp_def del: upt_Suc)

lemma rev_upt_first:
  "concat (map h (rev [m..<Suc hi])) = y # ys \<Longrightarrow>
   \<exists>j. m \<le> j \<and> j \<le> hi \<and> (\<exists>zs. h j = y # zs) \<and> (\<forall>j'. j < j' \<and> j' \<le> hi \<longrightarrow> h j' = [])"
proof (induction hi)
  case 0
  then show ?case by (cases "m = 0") auto
next
  case (Suc hi)
  show ?case
  proof (cases "m \<le> Suc hi")
    case False
    with Suc.prems show ?thesis by simp
  next
    case True
    then have l: "rev [m..<Suc (Suc hi)] = Suc hi # rev [m..<Suc hi]" by simp
    show ?thesis
    proof (cases "h (Suc hi)")
      case Nil
      with Suc.prems l have "concat (map h (rev [m..<Suc hi])) = y # ys" by simp
      from Suc.IH[OF this] obtain j where j: "m \<le> j" "j \<le> hi" "\<exists>zs. h j = y # zs"
        "\<forall>j'. j < j' \<and> j' \<le> hi \<longrightarrow> h j' = []" by blast
      have "\<forall>j'. j < j' \<and> j' \<le> Suc hi \<longrightarrow> h j' = []"
        using j(4) Nil by (auto simp: le_Suc_eq)
      with j show ?thesis by (meson le_SucI)
    next
      case (Cons z zs)
      with Suc.prems l have "h (Suc hi) = y # zs" by simp
      with True show ?thesis by auto
    qed
  qed
qed

text \<open>
  The first match takes the longest run after which the rest of the expression matches.
\<close>

lemma rx_match_Rep_Seq_first:
  assumes "wordb_free b" "rx_match (Seq (Rep p m None) b) pv s = (pv', s') # ms"
  shows "\<exists>j pv1 zs. m \<le> j \<and> j \<le> length (takeWhile p s) \<and>
     rx_match b pv1 (drop j s) = (pv', s') # zs \<and>
     (\<forall>j' pv2. j < j' \<and> j' \<le> length (takeWhile p s) \<longrightarrow> rx_match b pv2 (drop j' s) = [])"
proof -
  define h where "h = (\<lambda>j. rx_match b (if j = 0 then pv else Some (s ! (j - 1))) (drop j s))"
  from assms(2) have "concat (map h (rev [m..<Suc (length (takeWhile p s))])) = (pv', s') # ms"
    unfolding rx_match_Rep_Seq_eq h_def .
  from rev_upt_first[OF this] obtain j zs where j: "m \<le> j" "j \<le> length (takeWhile p s)"
    "h j = (pv', s') # zs" "\<forall>j'. j < j' \<and> j' \<le> length (takeWhile p s) \<longrightarrow> h j' = []" by blast
  have "rx_match b pv2 (drop j' s) = []" if "j < j'" "j' \<le> length (takeWhile p s)" for j' pv2
  proof -
    from j(4) that have "h j' = []" by blast
    then show ?thesis unfolding h_def using wordb_free_match_Nil[OF assms(1)] by blast
  qed
  with j(1,2,3) show ?thesis unfolding h_def by blast
qed

subsection \<open>What follows the first match of an email\<close>

lemma email_class_simps:
  "email_domain 46" "is_alpha c \<Longrightarrow> email_domain c" "email_domain c \<Longrightarrow> email_local c"
  "\<not> email_local 64" "email_local 46"
  by (auto simp: char_defs)

lemma takeWhile_covers:
  assumes "\<forall>c\<in>set u. p c"
  shows "length u \<le> length (takeWhile p (u @ v))"
  using assms by (simp add: takeWhile_append2)

lemma email_first_rest:
  assumes "rx_match emailRegex pv s = (pv', s') # ms"
  shows "\<not> dom_tail s'"
proof
  assume dt: "dom_tail s'"
  let ?r3 = "Seq (Chr (is_char 46)) (Rep is_alpha 2 None)"
  let ?r2 = "Seq (Rep email_domain 1 None) ?r3"
  let ?r1 = "Seq (Chr (is_char 64)) ?r2"
  from assms have "rx_match (Seq (Rep email_local 1 None) ?r1) pv s = (pv', s') # ms"
    unfolding emailRegex_eq .
  from rx_match_Seq_hd[OF this] obtain pv1 s1 zs1 where
    "rx_match ?r1 pv1 s1 = (pv', s') # zs1" by blast
  then obtain pv2 s2 where r2: "rx_match ?r2 pv2 s2 = (pv', s') # zs1"
    unfolding rx_match_Chr_Seq by (cases s1) (auto split: if_splits simp del: rx_match.simps)
  have wf: "wordb_free ?r3" by simp
  from rx_match_Rep_Seq_first[OF wf r2] obtain j pv3 zs where j: "1 \<le> j"
    "j \<le> length (takeWhile email_domain s2)"
    "rx_match ?r3 pv3 (drop j s2) = (pv', s') # zs"
    "\<forall>j' pv4. j < j' \<and> j' \<le> length (takeWhile email_domain s2) \<longrightarrow> rx_match ?r3 pv4 (drop j' s2) = []"
    by blast
  from j(3) obtain s3 pv5 zs3 where s3: "drop j s2 = 46 # s3"
    "rx_match (Rep is_alpha 2 None) pv5 s3 = (pv', s') # zs3"
    unfolding rx_match_Chr_Seq
    by (cases "drop j s2") (auto split: if_splits simp: is_char_def simp del: rx_match.simps)
  from rx_match_Rep_first(1)[OF s3(2)] have s': "s' = dropWhile is_alpha s3" .
  from dt obtain i where i: "i \<le> length (takeWhile email_domain s')" "dot_tld (drop i s')"
    unfolding dom_tail_iff by blast
  let ?P = "take j s2 @ 46 # takeWhile is_alpha s3 @ take i s'"
  have s2: "s2 = ?P @ drop i s'"
  proof -
    have "s2 = take j s2 @ drop j s2" by simp
    also have "drop j s2 = 46 # takeWhile is_alpha s3 @ s'" using s3(1) s' by simp
    also have "s' = take i s' @ drop i s'" by simp
    finally show ?thesis by simp
  qed
  have "\<forall>c\<in>set (take j s2). email_domain c"
  proof -
    have "take j s2 = take j (takeWhile email_domain s2)"
      using j(2) by (metis takeWhile_eq_take take_take min.absorb1 min.commute)
    then show ?thesis by (metis in_set_takeD set_takeWhileD)
  qed
  moreover have "\<forall>c\<in>set (takeWhile is_alpha s3). email_domain c"
    by (metis set_takeWhileD email_class_simps(2))
  moreover have "\<forall>c\<in>set (take i s'). email_domain c"
  proof -
    have "take i s' = take i (takeWhile email_domain s')"
      using i(1) by (metis takeWhile_eq_take take_take min.absorb1 min.commute)
    then show ?thesis by (metis in_set_takeD set_takeWhileD)
  qed
  ultimately have "\<forall>c\<in>set ?P. email_domain c" using email_class_simps(1) by auto
  from takeWhile_covers[OF this, of "drop i s'"] s2
  have le: "length ?P \<le> length (takeWhile email_domain s2)" by simp
  have lt: "j < length ?P" using j(2) length_takeWhile_le[of email_domain s2] by simp
  have "drop (length ?P) s2 = drop i s'" using s2 by (metis append_eq_conv_conj)
  then have "rx_match ?r3 None (drop (length ?P) s2) \<noteq> []"
    using i(2) dot_tld_match[of None "drop i s'"] by simp
  with j(4) lt le show False by blast
qed

subsection \<open>Cutting the emails out of a text\<close>

lemma del_email_Nil: "replaceAll emailRegex [] [] = []"
  by (simp add: replaceAll_Nil emailRegex_not_empty)

lemma del_email_keep:
  assumes "\<not> email_at (c # cs)"
  shows "replaceAll emailRegex [] (c # cs) = c # replaceAll emailRegex [] cs"
proof -
  from assms have "rx_match emailRegex None (c # cs) = []" by (simp add: email_at_def)
  from rx_scan_Cons_none[OF this]
  have "rx_scan emailRegex None (c # cs) 0 = Inl c # rx_scan emailRegex None cs 0"
    using wordb_free_scan[OF wordb_free_parser(2), of "Some c" cs 0 None] by simp
  then show ?thesis by (simp add: replaceAll_def)
qed

lemma del_email_hit:
  assumes "email_at s"
  shows "\<exists>m s'. s = m @ s' \<and> m \<noteq> [] \<and>
     replaceAll emailRegex [] s = replaceAll emailRegex [] s' \<and> \<not> dom_tail s'"
proof -
  note wf = wordb_free_parser(2)
  from assms obtain c cs where s: "s = c # cs" using email_at_Nil by (cases s) auto
  show ?thesis
  proof (cases rule: rx_scan_Cons_cases[of emailRegex None c cs])
    case none
    with assms s show ?thesis by (simp add: email_at_def)
  next
    case (empty pv1 s1 ms)
    then have mem: "(pv1, s1) \<in> set (rx_match emailRegex None (c # cs))" by simp
    from rx_match_suffix[OF mem] obtain u where u: "c # cs = u @ s1" by blast
    then have "length (c # cs) = length u + length s1" by (metis length_append)
    with empty(2) have "u = []" by simp
    with mem u have "(pv1, s1) \<in> set (rx_match emailRegex None ([] @ s1))" by simp
    from rx_match_restrict[OF wf this, of None] show ?thesis by (simp add: emailRegex_not_empty)
  next
    case (hit pv1 s1 ms)
    then have mem: "(pv1, s1) \<in> set (rx_match emailRegex None (c # cs))" by simp
    from rx_match_suffix[OF mem] obtain u where u: "c # cs = u @ s1" by blast
    then have "length (c # cs) = length u + length s1" by (metis length_append)
    with hit(2) have "u \<noteq> []" by auto
    then obtain v where v: "u = c # v" using u by (cases u) auto
    with u have cs: "cs = v @ s1" by simp
    then have lv: "length cs - length s1 = length v" by simp
    have "rx_scan emailRegex (Some c) (v @ s1) (length v) = rx_scan emailRegex None s1 0"
      by (rule rx_scan_skip[OF wf])
    with hit(3) cs lv have "replaceAll emailRegex [] (c # cs) = replaceAll emailRegex [] s1"
      by (simp add: replaceAll_def)
    moreover have "\<not> dom_tail s1" using email_first_rest[OF hit(1)] .
    ultimately show ?thesis using s u \<open>u \<noteq> []\<close> by blast
  qed
qed

text \<open>
  What is left begins with the end of a domain only if the text itself does: a match
  ends where no domain can go on, and the characters of a domain are kept only where no
  match starts.
\<close>

lemma two_alpha_Cons: "two_alpha s \<longleftrightarrow> (\<exists>a b r. s = a # b # r \<and> is_alpha a \<and> is_alpha b)"
proof (cases s)
  case Nil
  then show ?thesis by (simp add: two_alpha_def)
next
  case (Cons a t)
  then show ?thesis by (cases t) (auto simp: two_alpha_def)
qed

lemma del_email_two_alpha:
  assumes "\<not> email_at (c # cs)" "email_local c" "two_alpha (replaceAll emailRegex [] cs)"
  shows "two_alpha cs"
proof -
  from assms(1,2) have n1: "\<not> email_at cs" by (simp add: email_at_Cons)
  from assms(3) have "cs \<noteq> []" by (auto simp: del_email_Nil two_alpha_def)
  then obtain a t where cs: "cs = a # t" by (cases cs) auto
  with n1 have d1: "replaceAll emailRegex [] cs = a # replaceAll emailRegex [] t"
    by (simp add: del_email_keep)
  with assms(3) have a: "is_alpha a" and ne: "replaceAll emailRegex [] t \<noteq> []"
    and b: "is_alpha (hd (replaceAll emailRegex [] t))"
    unfolding two_alpha_Cons by auto
  from a have "email_local a" using email_class_simps by blast
  with n1 cs have n2: "\<not> email_at t" by (simp add: email_at_Cons)
  from ne have "t \<noteq> []" by (auto simp: del_email_Nil)
  then obtain b' r where t: "t = b' # r" by (cases t) auto
  with n2 have "replaceAll emailRegex [] t = b' # replaceAll emailRegex [] r"
    by (simp add: del_email_keep)
  with b have "is_alpha b'" by simp
  with a cs t show ?thesis unfolding two_alpha_Cons by blast
qed

lemma del_email_dom_tail:
  "dom_tail (replaceAll emailRegex [] u) \<Longrightarrow> dom_tail u"
proof (induction "length u" arbitrary: u rule: less_induct)
  case less
  show ?case
  proof (cases "email_at u")
    case True
    from del_email_hit[OF this] obtain m s' where m: "u = m @ s'" "m \<noteq> []"
      "replaceAll emailRegex [] u = replaceAll emailRegex [] s'" "\<not> dom_tail s'" by blast
    then have "length s' < length u" by simp
    from less.hyps[OF this] less.prems m(3,4) show ?thesis by simp
  next
    case False
    show ?thesis
    proof (cases u)
      case Nil
      with less.prems show ?thesis by (simp add: del_email_Nil)
    next
      case (Cons c cs)
      with False have d: "replaceAll emailRegex [] u = c # replaceAll emailRegex [] cs"
        by (simp add: del_email_keep)
      with less.prems consider "c = 46" "two_alpha (replaceAll emailRegex [] cs)"
        | "email_domain c" "dom_tail (replaceAll emailRegex [] cs)"
        by (auto simp: dot_tld_def)
      then show ?thesis
      proof cases
        case 1
        from False Cons 1 have "two_alpha cs"
          using del_email_two_alpha[of c cs] email_class_simps(5) by simp
        with 1 Cons show ?thesis by (simp add: dot_tld_def)
      next
        case 2
        have "length cs < length u" using Cons by simp
        from less.hyps[OF this 2(2)] 2(1) Cons show ?thesis by simp
      qed
    qed
  qed
qed

lemma del_email_dom_head:
  assumes "dom_head (replaceAll emailRegex [] u)"
  shows "dom_head u"
proof (cases "email_at u")
  case True
  from del_email_hit[OF this] obtain m s' where m:
    "replaceAll emailRegex [] u = replaceAll emailRegex [] s'" "\<not> dom_tail s'" by blast
  from assms m(1) have "dom_tail (replaceAll emailRegex [] s')"
    by (cases "replaceAll emailRegex [] s'") (auto simp: dom_head_def)
  from del_email_dom_tail[OF this] m(2) show ?thesis by simp
next
  case False
  show ?thesis
  proof (cases u)
    case Nil
    with assms show ?thesis by (simp add: del_email_Nil)
  next
    case (Cons c cs)
    with False have "replaceAll emailRegex [] u = c # replaceAll emailRegex [] cs"
      by (simp add: del_email_keep)
    with assms have "email_domain c" "dom_tail (replaceAll emailRegex [] cs)"
      by (auto simp: dom_head_def)
    with del_email_dom_tail[of cs] Cons show ?thesis by (simp add: dom_head_def)
  qed
qed

text \<open>Where no email starts, none starts once the emails further on are cut out.\<close>

lemma del_email_at:
  "\<not> email_at (c # cs) \<Longrightarrow> \<not> email_at (c # replaceAll emailRegex [] cs)"
proof (induction cs arbitrary: c)
  case Nil
  then show ?case by (simp add: del_email_Nil)
next
  case (Cons d ds)
  show ?case
  proof (cases "email_local c")
    case False
    then show ?thesis by (simp add: email_at_Cons)
  next
    case True
    with Cons.prems have n: "\<not> email_at (d # ds)" and nd: "\<not> (\<exists>s2. d # ds = 64 # s2 \<and> dom_head s2)"
      by (simp_all add: email_at_Cons)
    from n have del: "replaceAll emailRegex [] (d # ds) = d # replaceAll emailRegex [] ds"
      by (rule del_email_keep)
    have 1: "\<not> email_at (d # replaceAll emailRegex [] ds)" using Cons.IH[OF n] .
    have 2: "\<not> (d = 64 \<and> dom_head (replaceAll emailRegex [] ds))"
      using nd del_email_dom_head[of ds] by auto
    from 1 2 show ?thesis unfolding del by (simp add: email_at_Cons)
  qed
qed

text \<open>Cutting the emails out of a text leaves a text without an email.\<close>

lemma replaceAll_email_free: "\<not> rx_test emailRegex (replaceAll emailRegex [] s)"
proof (induction "length s" arbitrary: s rule: less_induct)
  case less
  show ?case
  proof (cases "email_at s")
    case True
    from del_email_hit[OF this] obtain m s' where m: "s = m @ s'" "m \<noteq> []"
      "replaceAll emailRegex [] s = replaceAll emailRegex [] s'" by blast
    then have "length s' < length s" by simp
    from less[OF this] m(3) show ?thesis by simp
  next
    case False
    show ?thesis
    proof (cases s)
      case Nil
      then show ?thesis by (simp add: del_email_Nil rx_test_def emailRegex_not_empty)
    next
      case (Cons c cs)
      with False have d: "replaceAll emailRegex [] s = c # replaceAll emailRegex [] cs"
        by (simp add: del_email_keep)
      have "length cs < length s" using Cons by simp
      from less[OF this] have "\<not> rx_search emailRegex (Some c) (replaceAll emailRegex [] cs)"
        using rx_search_pv[OF wordb_free_parser(2), of "Some c" _ None] by (auto simp: rx_test_def)
      moreover have "\<not> email_at (c # replaceAll emailRegex [] cs)"
        using del_email_at False Cons by simp
      ultimately show ?thesis unfolding d by (simp add: rx_test_def email_at_def)
    qed
  qed
qed

section \<open>The fields parseOcrText returns\<close>

subsection \<open>The fields of the result\<close>

lemma parseOcrText_fields:
  assumes "raw \<noteq> []"
  shows "ocr_text (parseOcrText raw) = or_null (js_join [nl] (lines_of (cleaned_of raw)))"
    and "ocr_address (parseOcrText raw) =
           or_null (js_join (js '' | '') (addressLines_of (lines_of (cleaned_of raw))))"
    and "ocr_contact_number (parseOcrText raw) =
           or_null (js_join (js '', '') (dedup (phones_of (cleaned_of raw))))"
    and "ocr_email (parseOcrText raw) = or_null (js_join (js '', '')
        (dedup (emails_of (cleaned_of raw))))"
    and "ocr_url (parseOcrText raw) = or_null (js_join (js '', '')
        (dedup (urls_of (cleaned_of raw))))"
    and "other_text (parseOcrText raw) =
           or_null (js_trim (js_join [nl]
             (otherLines_of (lines_of (cleaned_of raw))
                (addressLines_of (lines_of (cleaned_of raw)))
                (emails_of (cleaned_of raw)) (urls_of (cleaned_of raw)))))"
  using assms by (simp_all add: parseOcrText_def Let_def)

lemma parseOcrText_Nil:
  "parseOcrText [] =
     \<lparr>ocr_text = None, ocr_address = None, ocr_contact_number = None, ocr_email = None,
      ocr_url = None, other_text = None\<rparr>"
  by (simp add: parseOcrText_def)

lemma or_null_eq_Some: "or_null s = Some t \<longleftrightarrow> s = t \<and> t \<noteq> []"
  by (auto simp: or_null_def)

subsection \<open>The other lines\<close>

lemma set_strip_inline: "set (strip_inline l) \<subseteq> set l \<union> {sp}"
proof -
  have "set (strip_inline l) \<subseteq>
      set (replaceAll (Rep (is_char sp) 2 None) [sp]
         (replaceAll urlRegex [] (replaceAll emailRegex [] (replaceAll phoneRegex [] l))))"
    unfolding strip_inline_def by (rule set_js_trim)
  also have "\<dots> \<subseteq> set (replaceAll urlRegex [] (replaceAll emailRegex []
      (replaceAll phoneRegex [] l))) \<union> {sp}"
    using set_replaceAll[of "Rep (is_char sp) 2 None" "[sp]"] by simp
  also have "\<dots> \<subseteq> set (replaceAll emailRegex [] (replaceAll phoneRegex [] l)) \<union> {sp}"
    using set_replaceAll_delete[of urlRegex] by blast
  also have "\<dots> \<subseteq> set (replaceAll phoneRegex [] l) \<union> {sp}"
    using set_replaceAll_delete[of emailRegex] by blast
  also have "\<dots> \<subseteq> set l \<union> {sp}"
    using set_replaceAll_delete[of phoneRegex] by blast
  finally show ?thesis .
qed

lemma otherLines_of_origin:
  "x \<in> set (otherLines_of ls as es us) \<longleftrightarrow>
     (\<exists>l\<in>set ls. x = strip_inline l \<and> not_extracted as es us l) \<and> length x > 1"
  by (auto simp: otherLines_of_def)

lemma otherLines_join:
  assumes "\<forall>l\<in>set ls. nl \<notin> set l" "otherLines_of ls as es us \<noteq> []"
  shows "js_trim (js_join [nl] (otherLines_of ls as es us)) = js_join [nl]
      (otherLines_of ls as es us)"
    and "js_split nl (js_join [nl] (otherLines_of ls as es us)) = otherLines_of ls as es us"
proof -
  let ?ol = "otherLines_of ls as es us"
  have each: "\<forall>x\<in>set ?ol. x \<noteq> [] \<and> \<not> is_space (hd x) \<and> \<not> is_space (last x) \<and> nl \<notin> set x"
  proof
    fix x assume "x \<in> set ?ol"
    then obtain l where l: "l \<in> set ls" "x = strip_inline l" "length x > 1"
      using otherLines_of_origin by blast
    have ne: "x \<noteq> []" using l(3) by auto
    obtain y where y: "x = js_trim y" using l(2) by (simp add: strip_inline_def)
    have "\<not> is_space (hd x)" "\<not> is_space (last x)" using js_trim_ends[of y] ne y by auto
    moreover have "nl \<notin> set x"
      using set_strip_inline[of l] l(1,2) assms(1) by (auto simp: sp_def nl_def)
    ultimately show "x \<noteq> [] \<and> \<not> is_space (hd x) \<and> \<not> is_space (last x) \<and> nl \<notin> set x"
      using ne by simp
  qed
  show "js_trim (js_join [nl] ?ol) = js_join [nl] ?ol"
    by (rule js_join_trimmed) (use each assms(2) in auto)
  show "js_split nl (js_join [nl] ?ol) = ?ol"
    by (rule js_split_join) (use each assms(2) in auto)
qed

lemma lines_no_nl: "l \<in> set (lines_of s) \<Longrightarrow> nl \<notin> set l"
proof -
  assume "l \<in> set (lines_of s)"
  then obtain x where x: "x \<in> set (js_split nl s)" "l = js_trim x"
    by (auto simp: lines_of_def)
  then show ?thesis using js_split_no_sep[OF x(1)] set_js_trim[of x] by auto
qed

subsection \<open>What is left of a line holds no email and no url\<close>

lemma keep_char_space: "keep_char c \<Longrightarrow> is_space c \<Longrightarrow> c = sp \<or> c = nl"
  by (auto simp: char_defs)

lemma canonical_line_spaces: "canonical_line l \<Longrightarrow> \<forall>c\<in>set l. is_space c \<longrightarrow> c = sp"
  using keep_char_space by (auto simp: canonical_line_def list_all_iff)

lemma matchAll_trim_parser:
  "matchAll emailRegex (js_trim x) = matchAll emailRegex x"
  "matchAll urlRegex (js_trim x) = matchAll urlRegex x"
  by (rule matchAll_trim; simp add: emailRegex_avoids emailRegex_not_empty urlRegex_avoids
      urlRegex_not_empty)+

lemma strip_inline_free:
  assumes "\<forall>c\<in>set l. is_space c \<longrightarrow> c = sp"
  shows "matchAll emailRegex (js_trim (strip_inline l)) = []"
    and "matchAll urlRegex (js_trim (strip_inline l)) = []"
proof -
  let ?l2 = "replaceAll emailRegex [] (replaceAll phoneRegex [] l)"
  let ?l3 = "replaceAll urlRegex [] ?l2"
  have sp: "is_space sp" by (rule is_space_simps)
  have "set ?l2 \<subseteq> set l"
    using set_replaceAll_delete[of emailRegex "replaceAll phoneRegex [] l"]
      set_replaceAll_delete[of phoneRegex l] by blast
  with assms have w: "\<forall>c\<in>set ?l2. is_space c \<longrightarrow> c = sp" by blast
  have e2: "\<not> rx_test emailRegex ?l2" by (rule replaceAll_email_free)
  have e3: "\<not> rx_test emailRegex ?l3"
    using replaceAll_url_free(2)[OF w emailRegex_avoids[OF sp] emailRegex_not_empty e2] .
  have u3: "\<not> rx_test urlRegex ?l3" using replaceAll_url_free(1)[OF w] .
  have x: "js_trim (strip_inline l) = js_trim (replaceAll (Rep (is_char sp) 2 None) [sp] ?l3)"
    by (simp add: strip_inline_def)
  show "matchAll emailRegex (js_trim (strip_inline l)) = []"
    unfolding x matchAll_trim_parser
      matchAll_collapse[OF emailRegex_avoids[OF sp] emailRegex_not_empty]
    using e3 by (simp add: matchAll_Nil_iff)
  show "matchAll urlRegex (js_trim (strip_inline l)) = []"
    unfolding x matchAll_trim_parser
      matchAll_collapse[OF urlRegex_avoids[OF sp] urlRegex_not_empty]
    using u3 by (simp add: matchAll_Nil_iff)
qed

text \<open>A matched string, trimmed, still holds a match.\<close>

lemma email_trim_matches:
  assumes "m \<in> set (matchAll emailRegex s)"
  shows "matchAll emailRegex (js_trim m) \<noteq> []"
  using matchAll_matches[OF wordb_free_parser(2) assms]
  by (simp add: matchAll_trim_parser matchAll_Nil_iff)

lemma url_trim_matches:
  assumes "m \<in> set (matchAll urlRegex s)"
  shows "matchAll urlRegex (js_trim m) \<noteq> []"
  using matchAll_matches[OF wordb_free_parser(3) assms]
  by (simp add: matchAll_trim_parser matchAll_Nil_iff)

text \<open>
  C1, amended. No line of \<open>other_text\<close> is equal, after trimming, to a string of the
  email field or of the url field: once the emails and the urls are cut out of a line,
  what is left holds no match of either pattern. For the address field the parser tests
  the lines before it cuts the inline phone numbers, emails and urls out of them: every
  line of \<open>other_text\<close> is the stripped form of a line of the cleaned text that is
  itself not equal to any address line (nor to a matched email or url). Whether the
  stripped form coincides with an address line is not tested; when it does, the line it
  comes from is another one, from which something was cut out.
\<close>

theorem other_text_lines_origin:
  assumes "other_text (parseOcrText raw) = Some t" "x \<in> set (js_split nl t)"
  shows "js_trim x \<notin> js_trim ` set (emails_of (cleaned_of raw)) \<and>
         js_trim x \<notin> js_trim ` set (urls_of (cleaned_of raw)) \<and>
         (\<exists>l\<in>set (lines_of (cleaned_of raw)).
            x = strip_inline l \<and>
            js_trim l \<notin> js_trim ` set (addressLines_of (lines_of (cleaned_of raw))) \<and>
            js_trim l \<notin> js_trim ` set (emails_of (cleaned_of raw)) \<and>
            js_trim l \<notin> js_trim ` set (urls_of (cleaned_of raw)) \<and>
            (js_trim x \<in> js_trim ` set (addressLines_of (lines_of (cleaned_of raw))) \<longrightarrow>
               strip_inline l \<noteq> l))"
proof -
  let ?ls = "lines_of (cleaned_of raw)"
  let ?ol = "otherLines_of ?ls (addressLines_of ?ls) (emails_of (cleaned_of raw))
      (urls_of (cleaned_of raw))"
  have raw: "raw \<noteq> []" using assms(1) by (auto simp: parseOcrText_def)
  have "or_null (js_trim (js_join [nl] ?ol)) = Some t"
    using parseOcrText_fields(6)[OF raw] assms(1) by simp
  then have t: "js_trim (js_join [nl] ?ol) = t" "t \<noteq> []" by (simp_all add: or_null_eq_Some)
  then have ne: "?ol \<noteq> []" by auto
  have nonl: "\<forall>l\<in>set ?ls. nl \<notin> set l" using lines_no_nl by blast
  from otherLines_join[OF nonl ne] t have "js_split nl t = ?ol" by simp
  with assms(2) have "x \<in> set ?ol" by simp
  then obtain l where l: "l \<in> set ?ls" "x = strip_inline l"
    "not_extracted (addressLines_of ?ls) (emails_of (cleaned_of raw)) (urls_of (cleaned_of raw)) l"
    using otherLines_of_origin by blast
  from canonical_line_spaces[OF parsed_lines_canonical[OF l(1)]]
  have free: "matchAll emailRegex (js_trim x) = []" "matchAll urlRegex (js_trim x) = []"
    unfolding l(2) by (rule strip_inline_free)+
  have "js_trim x \<noteq> js_trim e" if "e \<in> set (emails_of (cleaned_of raw))" for e
    using email_trim_matches[of e "cleaned_of raw"] that free(1) by (auto simp: emails_of_def)
  moreover have "js_trim x \<noteq> js_trim u" if "u \<in> set (urls_of (cleaned_of raw))" for u
    using url_trim_matches[of u "cleaned_of raw"] that free(2) by (auto simp: urls_of_def)
  ultimately have x: "js_trim x \<notin> js_trim ` set (emails_of (cleaned_of raw))"
    "js_trim x \<notin> js_trim ` set (urls_of (cleaned_of raw))" by blast+
  have n: "js_trim l \<notin> js_trim ` set (addressLines_of ?ls)"
    "js_trim l \<notin> js_trim ` set (emails_of (cleaned_of raw))"
    "js_trim l \<notin> js_trim ` set (urls_of (cleaned_of raw))"
    using l(3) by (auto simp: not_extracted_def split: if_splits)
  from n(1) l(2)
  have "js_trim x \<in> js_trim ` set (addressLines_of ?ls) \<longrightarrow> strip_inline l \<noteq> l"
    by auto
  with x n l(1,2) show ?thesis by blast
qed

text \<open>
  C9: each of the six fields of the result of \<open>parseOcrText\<close> is \<open>None\<close> (null) or a
  string that is not empty; none is the empty string.
\<close>

theorem parsed_fields_never_empty_string:
  "ocr_text (parseOcrText raw) \<noteq> Some [] \<and>
   ocr_address (parseOcrText raw) \<noteq> Some [] \<and>
   ocr_contact_number (parseOcrText raw) \<noteq> Some [] \<and>
   ocr_email (parseOcrText raw) \<noteq> Some [] \<and>
   ocr_url (parseOcrText raw) \<noteq> Some [] \<and>
   other_text (parseOcrText raw) \<noteq> Some []"
proof (cases "raw = []")
  case True
  then show ?thesis by (simp add: parseOcrText_Nil)
next
  case False
  have "\<And>s. or_null s \<noteq> Some []" by (simp add: or_null_def)
  then show ?thesis using parseOcrText_fields[OF False] by simp
qed

subsection \<open>Parsing again\<close>

text \<open>
  C6, amended. Parsing the \<open>ocr_text\<close> of a first parse again yields the same
  \<open>ocr_text\<close>, \<open>ocr_address\<close>, \<open>ocr_email\<close>, \<open>ocr_url\<close> and \<open>other_text\<close>. Nothing is
  said of \<open>ocr_contact_number\<close>: the phone pattern runs over the whole text and accepts
  a line break between two groups of digits, and rebuilding the text from its trimmed,
  non-empty lines can bring two groups next to one line break.
\<close>

theorem reparse_fields:
  "ocr_text (reparse raw) = ocr_text (parseOcrText raw) \<and>
   ocr_address (reparse raw) = ocr_address (parseOcrText raw) \<and>
   ocr_email (reparse raw) = ocr_email (parseOcrText raw) \<and>
   ocr_url (reparse raw) = ocr_url (parseOcrText raw) \<and>
   other_text (reparse raw) = other_text (parseOcrText raw)"
proof (cases "raw = []")
  case True
  then show ?thesis by (simp add: reparse_def parseOcrText_Nil)
next
  case False
  let ?c = "cleaned_of raw"
  let ?ls = "lines_of ?c"
  let ?F = "js_join [nl] ?ls"
  have can: "\<forall>l\<in>set ?ls. canonical_line l" using parsed_lines_canonical by blast
  show ?thesis
  proof (cases "?ls = []")
    case True
    then have "ocr_text (parseOcrText raw) = None"
      using parseOcrText_fields(1)[OF False] by (simp add: or_null_def)
    then have r: "reparse raw = parseOcrText []" by (simp add: reparse_def)
    have "emails_of ?c = []" using emails_of_lines[of ?c] True by simp
    moreover have "urls_of ?c = []" using urls_of_lines[of ?c] True by simp
    ultimately show ?thesis using True parseOcrText_fields[OF False]
      by (simp add: r parseOcrText_Nil or_null_def addressLines_of_def otherLines_of_def)
  next
    case ne: False
    then obtain l where "l \<in> set ?ls" by (cases ?ls) auto
    then have Fne: "?F \<noteq> []" using can js_join_nonempty[of l ?ls "[nl]"]
      by (auto simp: canonical_line_def)
    then have "ocr_text (parseOcrText raw) = Some ?F"
      using parseOcrText_fields(1)[OF False] by (simp add: or_null_def)
    then have r: "reparse raw = parseOcrText ?F" by (simp add: reparse_def)
    have c: "cleaned_of ?F = ?F" and l: "lines_of ?F = ?ls"
      using canonical_fixed_point[OF ne can] by simp_all
    have e: "emails_of ?F = emails_of ?c"
      using emails_of_lines[of ?F] emails_of_lines[of ?c] l by simp
    have u: "urls_of ?F = urls_of ?c"
      using urls_of_lines[of ?F] urls_of_lines[of ?c] l by simp
    show ?thesis
      unfolding r using parseOcrText_fields[OF False] parseOcrText_fields[OF Fne]
      by (simp add: c l e u)
  qed
qed

subsection \<open>Texts without a match\<close>

lemma canonical_line_strip:
  assumes "canonical_line l" "\<not> rx_test phoneRegex l" "\<not> rx_test emailRegex l" "\<not> rx_test urlRegex
      l"
  shows "strip_inline l = l"
proof -
  have "successively (\<lambda>a b. \<not> (is_char sp a \<and> is_char sp b)) l"
    using assms(1) by (simp add: canonical_line_def)
  then have "\<not> rx_test (Rep (is_char sp) 2 None) l"
    unfolding rx_test_def by (rule no_run_no_match[rotated]) simp
  then show ?thesis
    using assms by (simp add: strip_inline_def replaceAll_no_match canonical_line_trim)
qed

text \<open>
  C7, amended. When the phone, email and url patterns match nowhere in the cleaned text
  and no line is an address line, then \<open>ocr_address\<close>, \<open>ocr_contact_number\<close>,
  \<open>ocr_email\<close> and \<open>ocr_url\<close> are null, \<open>ocr_text\<close> is the lines joined by newlines
  (null when there is no line), and \<open>other_text\<close> is the lines of more than one
  character joined by newlines (null when there is none). In particular \<open>ocr_text\<close> is
  not null and \<open>other_text\<close> equals it when there is a line and every line has more than
  one character.
\<close>

theorem no_match_fields:
  assumes "raw \<noteq> []"
    and "matchAll phoneRegex (cleaned_of raw) = []"
    and "emails_of (cleaned_of raw) = []"
    and "urls_of (cleaned_of raw) = []"
    and "addressLines_of (lines_of (cleaned_of raw)) = []"
  shows "ocr_address (parseOcrText raw) = None \<and> ocr_contact_number (parseOcrText raw) = None \<and>
     ocr_email (parseOcrText raw) = None \<and> ocr_url (parseOcrText raw) = None \<and>
     ocr_text (parseOcrText raw) = or_null (js_join [nl] (lines_of (cleaned_of raw))) \<and>
     other_text (parseOcrText raw) =
       or_null (js_join [nl] (filter (\<lambda>l. length l > 1) (lines_of (cleaned_of raw)))) \<and>
     (lines_of (cleaned_of raw) \<noteq> [] \<and> list_all (\<lambda>l. length l > 1) (lines_of (cleaned_of raw)) \<longrightarrow>
        ocr_text (parseOcrText raw) \<noteq> None \<and>
        other_text (parseOcrText raw) = ocr_text (parseOcrText raw))"
proof -
  let ?c = "cleaned_of raw"
  let ?ls = "lines_of ?c"
  have can: "\<forall>l\<in>set ?ls. canonical_line l" using parsed_lines_canonical by blast
  have np: "\<not> rx_test phoneRegex ?c" using assms(2) by (simp add: matchAll_Nil_iff)
  have ne: "\<not> rx_test emailRegex ?c" using assms(3) by (simp add: emails_of_def matchAll_Nil_iff)
  have nu: "\<not> rx_test urlRegex ?c" using assms(4) by (simp add: urls_of_def matchAll_Nil_iff)
  have strip: "\<forall>l\<in>set ?ls. strip_inline l = l"
  proof
    fix l assume l: "l \<in> set ?ls"
    show "strip_inline l = l"
      using canonical_line_strip[of l] can l rx_test_line[OF wordb_free_parser(1) np l]
        rx_test_line[OF wordb_free_parser(2) ne l] rx_test_line[OF wordb_free_parser(3) nu l]
      by blast
  qed
  have "filter (not_extracted [] [] []) ?ls = ?ls" by (simp add: not_extracted_def)
  moreover have "map strip_inline ?ls = ?ls" using strip by (simp add: map_idI)
  ultimately have ol: "otherLines_of ?ls [] [] [] = filter (\<lambda>l. length l > 1) ?ls"
    by (simp add: otherLines_of_def)
  have tr: "js_trim (js_join [nl] (filter (\<lambda>l. length l > 1) ?ls)) =
      js_join [nl] (filter (\<lambda>l. length l > 1) ?ls)"
  proof (cases "filter (\<lambda>l. length l > 1) ?ls = []")
    case True
    then show ?thesis by simp
  next
    case False
    show ?thesis
      by (rule js_join_trimmed) (use False can in \<open>auto simp: canonical_line_def\<close>)
  qed
  have ph: "phones_of ?c = []" using assms(2) by (simp add: phones_of_def)
  have f: "ocr_address (parseOcrText raw) = None" "ocr_contact_number (parseOcrText raw) = None"
    "ocr_email (parseOcrText raw) = None" "ocr_url (parseOcrText raw) = None"
    "ocr_text (parseOcrText raw) = or_null (js_join [nl] ?ls)"
    "other_text (parseOcrText raw) = or_null (js_join [nl] (filter (\<lambda>l. length l > 1) ?ls))"
    using parseOcrText_fields[OF assms(1)] assms(3,4,5) ph ol tr
    by (simp_all add: or_null_def)
  have "?ls \<noteq> [] \<and> list_all (\<lambda>l. length l > 1) ?ls \<longrightarrow>
        ocr_text (parseOcrText raw) \<noteq> None \<and>
        other_text (parseOcrText raw) = ocr_text (parseOcrText raw)"
  proof
    assume a: "?ls \<noteq> [] \<and> list_all (\<lambda>l. length l > 1) ?ls"
    then have "filter (\<lambda>l. length l > 1) ?ls = ?ls" by (simp add: list_all_iff)
    moreover obtain l where "l \<in> set ?ls" using a by (cases ?ls) auto
    then have "js_join [nl] ?ls \<noteq> []" using can js_join_nonempty[of l ?ls "[nl]"]
      by (auto simp: canonical_line_def)
    ultimately show "ocr_text (parseOcrText raw) \<noteq> None \<and>
        other_text (parseOcrText raw) = ocr_text (parseOcrText raw)"
      using f by (simp add: or_null_def)
  qed
  with f show ?thesis by simp
qed

subsection \<open>Address lines\<close>

lemma dedup_set: "set (dedup xs) = set xs"
  by (induction xs rule: dedup.induct) auto

lemma dedup_distinct: "distinct (dedup xs)"
  by (induction xs rule: dedup.induct) (auto simp: dedup_set)

text \<open>
  C10: when a qualifying address line occurs on two lines of the cleaned text, the
  \<open>ocr_address\<close> field holds it twice, in the order of the lines: the field is the
  address lines before, between and after the two occurrences and the two occurrences
  themselves, joined by \<^verbatim>\<open>" | "\<close>. The lists behind the phone, email and url fields
  hold no element twice.
\<close>

theorem address_lines_not_deduplicated:
  assumes "raw \<noteq> []" "lines_of (cleaned_of raw) = A @ [l] @ B @ [l] @ C" "is_address_line l"
  shows "ocr_address (parseOcrText raw) =
      Some (js_join (js '' | '') (addressLines_of A @ [l] @ addressLines_of B @ [l] @
          addressLines_of C)) \<and>
    distinct (dedup (phones_of (cleaned_of raw))) \<and> distinct (dedup (emails_of (cleaned_of raw))) \<and>
    distinct (dedup (urls_of (cleaned_of raw)))"
proof -
  have "l \<in> set (lines_of (cleaned_of raw))" using assms(2) by simp
  then have "l \<noteq> []" using parsed_lines_canonical by (auto simp: canonical_line_def)
  then have "js_join (js '' | '') (addressLines_of A @ [l] @ addressLines_of B @ [l] @
      addressLines_of C) \<noteq> []"
    using js_join_nonempty[of l] by simp
  moreover have "addressLines_of (lines_of (cleaned_of raw)) =
      addressLines_of A @ [l] @ addressLines_of B @ [l] @ addressLines_of C"
    using assms(2,3) by (simp add: addressLines_of_def)
  ultimately show ?thesis using parseOcrText_fields(2)[OF assms(1)]
    by (simp add: or_null_def dedup_distinct)
qed

subsection \<open>Evaluating the parser on the examples\<close>

lemmas eval_defs = char_defs rx_defs js_trim_def Let_def rx_scan.simps

lemma ex_overlap_cleaned: "cleaned_of ex_overlap = ex_overlap"
  by (simp add: ex_overlap_def cleaned_of_def eval_defs)

lemma ex_overlap_lines: "lines_of ex_overlap = [js ''road 5'', js ''9876543210road 5'']"
  by (simp add: ex_overlap_def lines_of_def eval_defs)

lemma ex_overlap_emails: "emails_of ex_overlap = []"
  by (simp add: ex_overlap_def emails_of_def eval_defs)

lemma ex_overlap_urls: "urls_of ex_overlap = []"
  by (simp add: ex_overlap_def urls_of_def eval_defs)

lemma road5_address: "is_address_line (js ''road 5'')"
  by (simp add: is_address_line_def eval_defs)

lemma phone_road5_address: "\<not> is_address_line (js ''9876543210road 5'')"
  by (simp add: is_address_line_def eval_defs)

lemma phone_road5_strip: "strip_inline (js ''9876543210road 5'') = js ''road 5''"
  by (simp add: strip_inline_def eval_defs)

lemma ex_overlap_address: "addressLines_of (lines_of ex_overlap) = [js ''road 5'']"
  by (simp add: ex_overlap_lines addressLines_of_def road5_address phone_road5_address)

lemma ex_overlap_other:
  "otherLines_of (lines_of ex_overlap) [js ''road 5''] [] [] = [js ''road 5'']"
proof -
  have "js ''9876543210road 5'' \<noteq> js ''road 5''" by (simp add: js_def)
  moreover have "js_trim (js ''9876543210road 5'') = js ''9876543210road 5''"
    "js_trim (js ''road 5'') = js ''road 5''" by (simp_all add: js_def js_trim_def is_space_def)
  moreover have "length (js ''road 5'') > 1" by (simp add: js_def)
  ultimately show ?thesis
    by (simp add: ex_overlap_lines otherLines_of_def not_extracted_def phone_road5_strip)
qed

lemma ex_overlap_nonempty: "ex_overlap \<noteq> []"
  by (simp add: ex_overlap_def js_def)

lemma ex_overlap_other_text: "other_text (parseOcrText ex_overlap) = Some (js ''road 5'')"
  using parseOcrText_fields(6)[OF ex_overlap_nonempty]
  by (simp add: ex_overlap_cleaned ex_overlap_address ex_overlap_emails ex_overlap_urls
      ex_overlap_other)
     (simp add: js_def js_trim_def is_space_def or_null_def)

lemma ex_overlap_ocr_address: "ocr_address (parseOcrText ex_overlap) = Some (js ''road 5'')"
  using parseOcrText_fields(2)[OF ex_overlap_nonempty]
  by (simp add: ex_overlap_cleaned ex_overlap_address) (simp add: js_def or_null_def)

text \<open>
  C1, as stated, fails. In \<open>ex_overlap\<close> the first line is an address line. The second
  line is none (no word boundary between \<^verbatim>\<open>0\<close> and \<^verbatim>\<open>road\<close>), so it is kept, and
  cutting its phone number out leaves exactly the text of the first line.
\<close>

theorem other_text_repeats_address_counterexample:
  "other_text (parseOcrText ex_overlap) = Some (js ''road 5'') \<and>
   js_split nl (js ''road 5'') = [js ''road 5''] \<and>
   addressLines_of (lines_of (cleaned_of ex_overlap)) = [js ''road 5''] \<and>
   ocr_address (parseOcrText ex_overlap) = Some (js ''road 5'')"
  by (simp add: ex_overlap_other_text ex_overlap_ocr_address ex_overlap_cleaned ex_overlap_address)
     (simp add: js_def nl_def)

lemma ex_inline_nonempty: "ex_inline \<noteq> []"
  by (simp add: ex_inline_def js_def)

lemma ex_inline_cleaned: "cleaned_of ex_inline = ex_inline"
  by (simp add: ex_inline_def cleaned_of_def eval_defs)

lemma ex_inline_lines: "lines_of ex_inline = [ex_inline]"
  by (simp add: ex_inline_def lines_of_def eval_defs)

lemma ex_inline_emails: "emails_of ex_inline = [js ''a@b.co'']"
  by (simp add: ex_inline_def emails_of_def eval_defs)

lemma ex_inline_urls: "urls_of ex_inline = []"
  by (simp add: ex_inline_def urls_of_def eval_defs)

lemma ex_inline_address: "\<not> is_address_line ex_inline"
  by (simp add: ex_inline_def is_address_line_def eval_defs)

lemma ex_inline_strip: "strip_inline ex_inline = js ''mail now''"
  by (simp add: ex_inline_def strip_inline_def eval_defs)

lemma ex_inline_other:
  "otherLines_of [ex_inline] [] [js ''a@b.co''] [] = [js ''mail now'']"
proof -
  have "js_trim ex_inline \<noteq> js_trim (js ''a@b.co'')"
    by (simp add: ex_inline_def js_def js_trim_def is_space_def)
  moreover have "length (js ''mail now'') > 1" by (simp add: js_def)
  ultimately show ?thesis
    by (simp add: otherLines_of_def not_extracted_def ex_inline_strip)
qed

lemma ex_inline_other_text: "other_text (parseOcrText ex_inline) = Some (js ''mail now'')"
  using parseOcrText_fields(6)[OF ex_inline_nonempty]
  by (simp add: ex_inline_cleaned ex_inline_lines ex_inline_emails ex_inline_urls ex_inline_other
      addressLines_of_def ex_inline_address)
     (simp add: js_def js_trim_def is_space_def or_null_def)

theorem other_text_lines_origin_witness:
  "other_text (parseOcrText ex_inline) = Some (js ''mail now'') \<and>
   js ''mail now'' \<in> set (js_split nl (js ''mail now'')) \<and>
   emails_of (cleaned_of ex_inline) = [js ''a@b.co''] \<and>
   js_trim (js ''mail now'') \<notin> js_trim ` set (emails_of (cleaned_of ex_inline)) \<and>
   js_trim (js ''mail now'') \<notin> js_trim ` set (urls_of (cleaned_of ex_inline)) \<and>
   (\<exists>l\<in>set (lines_of (cleaned_of ex_inline)).
       js ''mail now'' = strip_inline l \<and>
       js_trim l \<notin> js_trim ` set (addressLines_of (lines_of (cleaned_of ex_inline))) \<and>
       js_trim l \<notin> js_trim ` set (emails_of (cleaned_of ex_inline)) \<and>
       js_trim l \<notin> js_trim ` set (urls_of (cleaned_of ex_inline))) \<and>
   other_text (parseOcrText ex_overlap) = Some (js ''road 5'') \<and>
   js ''road 5'' \<in> set (js_split nl (js ''road 5'')) \<and>
   js_trim (js ''road 5'') \<in> js_trim ` set (addressLines_of (lines_of (cleaned_of ex_overlap))) \<and>
   (\<exists>l\<in>set (lines_of (cleaned_of ex_overlap)). js ''road 5'' = strip_inline l \<and> strip_inline l \<noteq> l)"
proof -
  have s: "js ''mail now'' \<in> set (js_split nl (js ''mail now''))" by (simp add: js_def nl_def)
  from other_text_lines_origin[OF ex_inline_other_text s]
  have 1: "js_trim (js ''mail now'') \<notin> js_trim ` set (emails_of (cleaned_of ex_inline))"
    "js_trim (js ''mail now'') \<notin> js_trim ` set (urls_of (cleaned_of ex_inline))"
    "\<exists>l\<in>set (lines_of (cleaned_of ex_inline)).
       js ''mail now'' = strip_inline l \<and>
       js_trim l \<notin> js_trim ` set (addressLines_of (lines_of (cleaned_of ex_inline))) \<and>
       js_trim l \<notin> js_trim ` set (emails_of (cleaned_of ex_inline)) \<and>
       js_trim l \<notin> js_trim ` set (urls_of (cleaned_of ex_inline))"
    by blast+
  have r: "js ''road 5'' \<in> set (js_split nl (js ''road 5''))" by (simp add: js_def nl_def)
  have a: "js_trim (js ''road 5'') \<in> js_trim ` set (addressLines_of
      (lines_of (cleaned_of ex_overlap)))"
    by (simp add: ex_overlap_cleaned ex_overlap_address)
  from other_text_lines_origin[OF ex_overlap_other_text r] a
  have 2: "\<exists>l\<in>set (lines_of (cleaned_of ex_overlap)). js ''road 5'' = strip_inline l \<and>
      strip_inline l \<noteq> l"
    by blast
  from 1 2 s r a ex_inline_other_text ex_overlap_other_text show ?thesis
    by (simp add: ex_inline_cleaned ex_inline_emails)
qed

lemma ex_two_lines_nonempty: "ex_two_lines \<noteq> []"
  by (simp add: ex_two_lines_def js_def)

lemma ex_two_lines_cleaned: "cleaned_of ex_two_lines = ex_two_lines"
  by (simp add: ex_two_lines_def cleaned_of_def eval_defs)

lemma ex_two_lines_lines: "lines_of ex_two_lines = [js ''98765'', js ''43210'']"
  by (simp add: ex_two_lines_def lines_of_def eval_defs)

lemma ex_two_lines_phones: "phones_of ex_two_lines = []"
  by (simp add: ex_two_lines_def phones_of_def digit_count_def eval_defs)

lemma ex_two_lines_text: "ocr_text (parseOcrText ex_two_lines) = Some ex_two_lines_joined"
  using parseOcrText_fields(1)[OF ex_two_lines_nonempty]
  by (simp add: ex_two_lines_cleaned ex_two_lines_lines)
     (simp add: or_null_def js_def ex_two_lines_joined_def)

lemma joined_nonempty: "ex_two_lines_joined \<noteq> []"
  by (simp add: ex_two_lines_joined_def js_def)

lemma joined_cleaned: "cleaned_of ex_two_lines_joined = ex_two_lines_joined"
  by (simp add: ex_two_lines_joined_def cleaned_of_def eval_defs)

lemma joined_phones: "phones_of ex_two_lines_joined = [js ''98765 43210'']"
  by (simp add: ex_two_lines_joined_def phones_of_def digit_count_def eval_defs)

text \<open>
  C6, as stated, fails. In \<open>ex_two_lines\<close> a space and a newline lie between the two
  groups of digits, and the phone pattern allows one separator only: no phone number. The
  text rebuilt from the lines has the newline alone, and parsing it finds a number.
\<close>

theorem reparse_phone_counterexample:
  "ocr_contact_number (parseOcrText ex_two_lines) = None \<and>
   ocr_text (parseOcrText ex_two_lines) = Some ex_two_lines_joined \<and>
   ocr_contact_number (parseOcrText ex_two_lines_joined) = Some (js ''98765 43210'') \<and>
   ocr_contact_number (reparse ex_two_lines) = Some (js ''98765 43210'')"
proof -
  have 1: "ocr_contact_number (parseOcrText ex_two_lines) = None"
    using parseOcrText_fields(3)[OF ex_two_lines_nonempty]
    by (simp add: ex_two_lines_cleaned ex_two_lines_phones or_null_def)
  have 2: "ocr_contact_number (parseOcrText ex_two_lines_joined) = Some (js ''98765 43210'')"
    using parseOcrText_fields(3)[OF joined_nonempty]
    by (simp add: joined_cleaned joined_phones) (simp add: or_null_def js_def)
  show ?thesis using 1 2 ex_two_lines_text by (simp add: reparse_def)
qed

theorem reparse_fields_witness:
  "ocr_text (reparse ex_two_lines) = Some ex_two_lines_joined \<and>
   ocr_text (parseOcrText ex_two_lines) = Some ex_two_lines_joined"
  using reparse_fields[of ex_two_lines] ex_two_lines_text by simp

lemma a_cleaned: "cleaned_of (js ''a'') = js ''a''"
  by (simp add: cleaned_of_def eval_defs)

lemma a_lines: "lines_of (js ''a'') = [js ''a'']"
  by (simp add: lines_of_def eval_defs)

lemma a_nomatch: "matchAll phoneRegex (js ''a'') = [] \<and> emails_of (js ''a'') = [] \<and>
    urls_of (js ''a'') = [] \<and>
   addressLines_of [js ''a''] = []"
  by (simp add: emails_of_def urls_of_def addressLines_of_def is_address_line_def eval_defs)

text \<open>
  C7, as stated, fails: nothing matches in the text \<^verbatim>\<open>a\<close>, its \<open>ocr_text\<close> is
  \<^verbatim>\<open>a\<close>, and its \<open>other_text\<close> is null, since a line of one character is dropped
  from the other lines.
\<close>

theorem no_match_other_text_counterexample:
  "matchAll phoneRegex (cleaned_of (js ''a'')) = [] \<and> emails_of (cleaned_of (js ''a'')) = [] \<and>
   urls_of (cleaned_of (js ''a'')) = [] \<and> addressLines_of (lines_of (cleaned_of (js ''a''))) = [] \<and>
   ocr_text (parseOcrText (js ''a'')) = Some (js ''a'') \<and>
   other_text (parseOcrText (js ''a'')) = None"
proof -
  have ne: "js ''a'' \<noteq> []" by (simp add: js_def)
  have h: "matchAll phoneRegex (cleaned_of (js ''a'')) = []" "emails_of (cleaned_of (js ''a'')) =
      []"
    "urls_of (cleaned_of (js ''a'')) = []" "addressLines_of (lines_of (cleaned_of (js ''a''))) = []"
    using a_nomatch by (simp_all add: a_cleaned a_lines)
  have "ocr_text (parseOcrText (js ''a'')) = Some (js ''a'')"
    using parseOcrText_fields(1)[OF ne] by (simp add: a_cleaned a_lines)
        (simp add: or_null_def js_def)
  moreover have "strip_inline (js ''a'') = js ''a''" by (simp add: strip_inline_def eval_defs)
  then have "other_text (parseOcrText (js ''a'')) = None"
    using parseOcrText_fields(6)[OF ne] h
    by (simp add: a_cleaned a_lines otherLines_of_def not_extracted_def)
        (simp add: js_def or_null_def)
  ultimately show ?thesis using h by simp
qed

lemma tea_cleaned: "cleaned_of (js ''tea'') = js ''tea''"
  by (simp add: cleaned_of_def eval_defs)

lemma tea_lines: "lines_of (js ''tea'') = [js ''tea'']"
  by (simp add: lines_of_def eval_defs)

lemma tea_nomatch: "matchAll phoneRegex (js ''tea'') = [] \<and> emails_of (js ''tea'') = [] \<and>
   urls_of (js ''tea'') = [] \<and> addressLines_of [js ''tea''] = []"
  by (simp add: emails_of_def urls_of_def addressLines_of_def is_address_line_def eval_defs)

theorem no_match_fields_witness:
  "js ''tea'' \<noteq> [] \<and> matchAll phoneRegex (cleaned_of (js ''tea'')) = [] \<and>
   emails_of (cleaned_of (js ''tea'')) = [] \<and> urls_of (cleaned_of (js ''tea'')) = [] \<and>
   addressLines_of (lines_of (cleaned_of (js ''tea''))) = [] \<and>
   lines_of (cleaned_of (js ''tea'')) = [js ''tea''] \<and>
   ocr_address (parseOcrText (js ''tea'')) = None \<and>
   ocr_contact_number (parseOcrText (js ''tea'')) = None \<and>
   ocr_email (parseOcrText (js ''tea'')) = None \<and> ocr_url (parseOcrText (js ''tea'')) = None \<and>
   ocr_text (parseOcrText (js ''tea'')) = Some (js ''tea'') \<and>
   other_text (parseOcrText (js ''tea'')) = Some (js ''tea'')"
proof -
  have ne: "js ''tea'' \<noteq> []" by (simp add: js_def)
  have h: "matchAll phoneRegex (cleaned_of (js ''tea'')) = []" "emails_of (cleaned_of (js ''tea''))
      = []"
    "urls_of (cleaned_of (js ''tea'')) = []" "addressLines_of (lines_of (cleaned_of (js ''tea'')))
        = []"
    using tea_nomatch by (simp_all add: tea_cleaned tea_lines)
  have l: "lines_of (cleaned_of (js ''tea'')) = [js ''tea'']" by (simp add: tea_cleaned tea_lines)
  have len: "list_all (\<lambda>l. length l > 1) [js ''tea'']" by (simp add: js_def)
  have t: "or_null (js_join [nl] [js ''tea'']) = Some (js ''tea'')"
      by (simp add: or_null_def js_def)
  from no_match_fields[OF ne h] ne h l len t show ?thesis by simp
qed

lemma ex_twice_nonempty: "ex_twice \<noteq> []"
  by (simp add: ex_twice_def js_def)

lemma ex_twice_cleaned: "cleaned_of ex_twice = ex_twice"
  by (simp add: ex_twice_def cleaned_of_def eval_defs)

lemma ex_twice_lines: "lines_of ex_twice = [js ''5 Main Rd'', js ''5 Main Rd'']"
  by (simp add: ex_twice_def lines_of_def eval_defs)

lemma main_rd_address: "is_address_line (js ''5 Main Rd'')"
  by (simp add: is_address_line_def eval_defs)

theorem address_lines_not_deduplicated_witness:
  "ex_twice \<noteq> [] \<and> lines_of (cleaned_of ex_twice) = [] @ [js ''5 Main Rd''] @ [] @
      [js ''5 Main Rd''] @ [] \<and>
   is_address_line (js ''5 Main Rd'') \<and>
   ocr_address (parseOcrText ex_twice) = Some (js ''5 Main Rd | 5 Main Rd'')"
proof -
  have l: "lines_of (cleaned_of ex_twice) = [] @ [js ''5 Main Rd''] @ [] @ [js ''5 Main Rd''] @ []"
    by (simp add: ex_twice_cleaned ex_twice_lines)
  have j: "js_join (js '' | '') (addressLines_of [] @ [js ''5 Main Rd''] @ addressLines_of [] @
      [js ''5 Main Rd''] @ addressLines_of [])
     = js ''5 Main Rd | 5 Main Rd''"
    by (simp add: addressLines_of_def js_def)
  from address_lines_not_deduplicated[OF ex_twice_nonempty l main_rd_address] ex_twice_nonempty l
      main_rd_address j
  show ?thesis by simp
qed

section \<open>What extractTextFromImage returns and leaves behind\<close>

declare bit_length.simps [simp del]

text \<open>The sum of two doubles is rounded: here to a tie, which goes to the even neighbour.\<close>

lemma fl_add_rounds: "fl_add (64 + 1 / 2 ^ 46) 64 = 128"
  by (simp add: fl_add_def fl_round_def ulp_def round_half_even_def bit_length.simps infinity_def)

lemma strategy_indices_eq: "strategy_indices = [0, 1, 2]"
  by (simp add: strategy_indices_def strategy_names_def upt_rec)

lemma first_rejected_None_iff:
  "first_rejected order ps = None \<longleftrightarrow> (\<forall>x\<in>set ps. \<not> isl x)"
proof -
  let ?is = "filter (\<lambda>i. i < length ps) (order @ [0..<length ps])"
  have "filter isl (map (\<lambda>i. ps ! i) ?is) = [] \<longleftrightarrow> (\<forall>i<length ps. \<not> isl (ps ! i))"
    by (auto simp: filter_empty_conv)
  also have "\<dots> \<longleftrightarrow> (\<forall>x\<in>set ps. \<not> isl x)"
    by (metis in_set_conv_nth)
  finally have "filter isl (map (\<lambda>i. ps ! i) ?is) = [] \<longleftrightarrow> (\<forall>x\<in>set ps. \<not> isl x)" .
  moreover have "first_rejected order ps = None \<longleftrightarrow> filter isl (map (\<lambda>i. ps ! i) ?is) = []"
    unfolding first_rejected_def by (cases "filter isl (map (\<lambda>i. ps ! i) ?is)") simp_all
  ultimately show ?thesis by blast
qed

lemma first_rejected_Some:
  assumes "first_rejected order ps = Some e"
  shows "Inl e \<in> set ps"
proof -
  let ?is = "filter (\<lambda>i. i < length ps) (order @ [0..<length ps])"
  from assms obtain r rs where r: "filter isl (map (\<lambda>i. ps ! i) ?is) = r # rs" "e = projl r"
    by (auto simp: first_rejected_def split: list.splits)
  then have "r \<in> set (filter isl (map (\<lambda>i. ps ! i) ?is))" by simp
  then have "isl r" "r \<in> set ps" by auto
  then show ?thesis using r(2) by (cases r) auto
qed

lemma promise_all_Inl_iff: "promise_all order ps = Inl e \<longleftrightarrow> first_rejected order ps = Some e"
  by (simp add: promise_all_def split: option.splits)

lemma promise_all_total:
  "(\<forall>x\<in>set ps. \<not> isl x) \<Longrightarrow> promise_all order ps = Inr (map projr ps)"
  using first_rejected_None_iff[of order ps] by (simp add: promise_all_def)

lemma rejection_of_None_iff:
  "rejection_of env = None \<longleftrightarrow>
     (\<forall>i\<in>set strategy_indices. \<not> isl (toFile env i) \<and> \<not> isl (recognize_tmp env i))"
proof -
  have "rejection_of env = None \<longleftrightarrow>
      first_rejected (toFile_order env) (map (toFile env) strategy_indices) = None \<and>
      first_rejected (recognize_order env) (map (recognize_tmp env) strategy_indices) = None"
    by (simp add: rejection_of_def split: option.splits)
  then show ?thesis unfolding first_rejected_None_iff by auto
qed

lemma rejection_of_Some:
  assumes "rejection_of env = Some e"
  shows "\<exists>i\<in>set strategy_indices. toFile env i = Inl e \<or> recognize_tmp env i = Inl e"
proof (cases "first_rejected (toFile_order env) (map (toFile env) strategy_indices)")
  case None
  with assms have "first_rejected (recognize_order env) (map (recognize_tmp env) strategy_indices)
      = Some e"
    by (simp add: rejection_of_def)
  from first_rejected_Some[OF this] show ?thesis by auto
next
  case (Some e')
  with assms have "e' = e" by (simp add: rejection_of_def)
  with first_rejected_Some[OF Some] show ?thesis by auto
qed

lemma score_results_length: "length (score_results rs) = length rs"
  by (simp add: score_results_def)

lemma pick_best_Some: "sc \<noteq> [] \<Longrightarrow> \<exists>b. pick_best sc = Some b"
  by (cases "sort_key (\<lambda>a. - score a) sc") (auto simp: pick_best_def sort_scored_def
      sort_key_Nil_iff)

lemma with_raw_not_empty: "with_raw raw p \<noteq> empty_result"
  by (simp add: with_raw_def empty_result_def)

text \<open>
  The result the selector picks, by its index: no result scores higher, and every result
  declared before it scores lower.
\<close>

lemma score_results_nth:
  "i < length rs \<Longrightarrow>
   score_results rs ! i = \<lparr>sdata = rs ! i, score = avgConf (rs ! i), sname = strategy_names ! i\<rparr>"
  by (simp add: score_results_def)

lemma pick_best_index:
  "pick_best (score_results rs) = Some b \<longleftrightarrow>
     (\<exists>i<length rs. b = score_results rs ! i \<and>
        (\<forall>j<length rs. avgConf (rs ! j) \<le> avgConf (rs ! i)) \<and>
        (\<forall>j<i. avgConf (rs ! j) < avgConf (rs ! i)))"
proof (cases "rs = []")
  case True
  then show ?thesis by (simp add: pick_best_def sort_scored_def score_results_def)
next
  case False
  let ?sc = "score_results rs"
  have ne: "?sc \<noteq> []" using False score_results_length[of rs] by auto
  from hd_sort_key_first_min[OF ne, of "\<lambda>a. - score a"] obtain k where
    k: "k < length ?sc" "hd (sort_key (\<lambda>a. - score a) ?sc) = ?sc ! k"
      "\<forall>j<length ?sc. - score (?sc ! k) \<le> - score (?sc ! j)"
      "\<forall>j<k. - score (?sc ! k) < - score (?sc ! j)" by blast
  have sc: "score (?sc ! j) = avgConf (rs ! j)" if "j < length rs" for j
    using that by (simp add: score_results_nth)
  have kl: "k < length rs" using k(1) by (simp add: score_results_length)
  have kmax: "\<forall>j<length rs. avgConf (rs ! j) \<le> avgConf (rs ! k)"
    using k(3) sc kl by (simp add: score_results_length)
  have kfirst: "\<forall>j<k. avgConf (rs ! j) < avgConf (rs ! k)"
    using k(4) sc kl by simp
  have "sort_key (\<lambda>a. - score a) ?sc \<noteq> []" using ne by (simp add: sort_key_Nil_iff)
  then have pb: "pick_best ?sc = Some (?sc ! k)" using k(2)
    by (cases "sort_key (\<lambda>a. - score a) ?sc") (auto simp: pick_best_def sort_scored_def)
  show ?thesis
  proof
    assume "pick_best ?sc = Some b"
    with pb have "b = ?sc ! k" by simp
    with kl kmax kfirst show "\<exists>i<length rs. b = ?sc ! i \<and>
        (\<forall>j<length rs. avgConf (rs ! j) \<le> avgConf (rs ! i)) \<and>
        (\<forall>j<i. avgConf (rs ! j) < avgConf (rs ! i))" by blast
  next
    assume "\<exists>i<length rs. b = ?sc ! i \<and>
        (\<forall>j<length rs. avgConf (rs ! j) \<le> avgConf (rs ! i)) \<and>
        (\<forall>j<i. avgConf (rs ! j) < avgConf (rs ! i))"
    then obtain i where i: "i < length rs" "b = ?sc ! i"
      "\<forall>j<length rs. avgConf (rs ! j) \<le> avgConf (rs ! i)"
      "\<forall>j<i. avgConf (rs ! j) < avgConf (rs ! i)" by blast
    have "i = k"
    proof (rule ccontr)
      assume "i \<noteq> k"
      then consider "i < k" | "k < i" by linarith
      then show False
      proof cases
        case 1
        with kfirst have "avgConf (rs ! i) < avgConf (rs ! k)" by simp
        moreover from i(3) kl have "avgConf (rs ! k) \<le> avgConf (rs ! i)" by simp
        ultimately show False by simp
      next
        case 2
        with i(4) have "avgConf (rs ! k) < avgConf (rs ! i)" by simp
        moreover from kmax i(1) have "avgConf (rs ! i) \<le> avgConf (rs ! k)" by simp
        ultimately show False by simp
      qed
    qed
    with pb i(2) show "pick_best ?sc = Some b" by simp
  qed
qed

lemma best_recipe_iff:
  "(\<exists>best. pick_best (score_results (map f strategy_indices)) = Some best \<and> P (sdata best)) \<longleftrightarrow>
   (\<exists>i\<in>set strategy_indices.
      (\<forall>j\<in>set strategy_indices. avgConf (f j) \<le> avgConf (f i)) \<and>
      (\<forall>j\<in>set strategy_indices. j < i \<longrightarrow> avgConf (f j) < avgConf (f i)) \<and>
      P (f i))"
proof -
  let ?rs = "map f strategy_indices"
  define n where "n = length strategy_names"
  have n: "length ?rs = n" "\<And>j. j < n \<Longrightarrow> ?rs ! j = f j"
    "\<And>Q. (\<forall>j\<in>set strategy_indices. Q j) \<longleftrightarrow> (\<forall>j<n. Q j)"
    "\<And>Q. (\<exists>j\<in>set strategy_indices. Q j) \<longleftrightarrow> (\<exists>j<n. Q j)"
    by (auto simp: strategy_indices_def n_def)
  have "(\<exists>best. pick_best (score_results ?rs) = Some best \<and> P (sdata best)) \<longleftrightarrow>
      (\<exists>i<n. (\<forall>j<n. avgConf (f j) \<le> avgConf (f i)) \<and> (\<forall>j<i. avgConf (f j) < avgConf (f i)) \<and>
          P (f i))"
    unfolding pick_best_index n(1)
  proof
    assume "\<exists>best. (\<exists>i<n. best = score_results ?rs ! i \<and>
        (\<forall>j<n. avgConf (?rs ! j) \<le> avgConf (?rs ! i)) \<and>
        (\<forall>j<i. avgConf (?rs ! j) < avgConf (?rs ! i))) \<and> P (sdata best)"
    then obtain i where i: "i < n" "\<forall>j<n. avgConf (?rs ! j) \<le> avgConf (?rs ! i)"
      "\<forall>j<i. avgConf (?rs ! j) < avgConf (?rs ! i)" "P (sdata (score_results ?rs ! i))" by blast
    from i(4) i(1) have "P (f i)" using score_results_nth[of i ?rs] n(1,2) by simp
    moreover from i(2) i(1) have "\<forall>j<n. avgConf (f j) \<le> avgConf (f i)" using n(2) by simp
    moreover from i(3) i(1) have "\<forall>j<i. avgConf (f j) < avgConf (f i)" using n(2) by simp
    ultimately show "\<exists>i<n. (\<forall>j<n. avgConf (f j) \<le> avgConf (f i)) \<and>
        (\<forall>j<i. avgConf (f j) < avgConf (f i)) \<and> P (f i)" using i(1) by blast
  next
    assume "\<exists>i<n. (\<forall>j<n. avgConf (f j) \<le> avgConf (f i)) \<and>
        (\<forall>j<i. avgConf (f j) < avgConf (f i)) \<and> P (f i)"
    then obtain i where i: "i < n" "\<forall>j<n. avgConf (f j) \<le> avgConf (f i)"
      "\<forall>j<i. avgConf (f j) < avgConf (f i)" "P (f i)" by blast
    have "P (sdata (score_results ?rs ! i))" using i(1,4) score_results_nth[of i ?rs] n(1,2) by simp
    moreover have "\<forall>j<n. avgConf (?rs ! j) \<le> avgConf (?rs ! i)" using i(1,2) n(2) by simp
    moreover have "\<forall>j<i. avgConf (?rs ! j) < avgConf (?rs ! i)" using i(1,3) n(2) by simp
    ultimately show "\<exists>best. (\<exists>i<n. best = score_results ?rs ! i \<and>
        (\<forall>j<n. avgConf (?rs ! j) \<le> avgConf (?rs ! i)) \<and>
        (\<forall>j<i. avgConf (?rs ! j) < avgConf (?rs ! i))) \<and> P (sdata best)" using i(1) by blast
  qed
  also have "\<dots> \<longleftrightarrow> (\<exists>i\<in>set strategy_indices.
      (\<forall>j\<in>set strategy_indices. avgConf (f j) \<le> avgConf (f i)) \<and>
      (\<forall>j\<in>set strategy_indices. j < i \<longrightarrow> avgConf (f j) < avgConf (f i)) \<and>
      P (f i))"
    unfolding n(3,4) by auto
  finally show ?thesis .
qed

text \<open>When no step rejects, the best-scoring result decides.\<close>

lemma try_block_ok:
  assumes "rejection_of env = None"
  shows "\<exists>best.
     pick_best (score_results (map (\<lambda>i. projr (recognize_tmp env i)) strategy_indices)) =
       Some best \<and>
     try_block env =
       (if length (js_trim (buildCleanText (sdata best))) < 2 then Inr empty_result
        else Inr (with_raw (buildCleanText (sdata best))
            (parseOcrText (buildCleanText (sdata best)))))"
proof -
  from assms have ok: "\<forall>i\<in>set strategy_indices. \<not> isl (toFile env i) \<and> \<not> isl (recognize_tmp env i)"
    by (simp add: rejection_of_None_iff)
  then have "\<forall>x\<in>set (map (toFile env) strategy_indices). \<not> isl x" by auto
  from promise_all_total[OF this] obtain vs where
    a: "promise_all (toFile_order env) (map (toFile env) strategy_indices) = Inr vs" by blast
  have "\<forall>x\<in>set (map (recognize_tmp env) strategy_indices). \<not> isl x" using ok by auto
  from promise_all_total[OF this]
  have b: "promise_all (recognize_order env) (map (recognize_tmp env) strategy_indices) =
      Inr (map (\<lambda>i. projr (recognize_tmp env i)) strategy_indices)"
    by (simp add: comp_def)
  have "score_results (map (\<lambda>i. projr (recognize_tmp env i)) strategy_indices) \<noteq> []"
    using score_results_length[of "map (\<lambda>i. projr (recognize_tmp env i)) strategy_indices"]
    by (auto simp: strategy_indices_eq)
  from pick_best_Some[OF this] obtain best where
    c: "pick_best (score_results (map (\<lambda>i. projr (recognize_tmp env i)) strategy_indices)) = Some
        best"
    by blast
  have "try_block env =
      (if length (js_trim (buildCleanText (sdata best))) < 2 then Inr empty_result
       else Inr (with_raw (buildCleanText (sdata best))
           (parseOcrText (buildCleanText (sdata best)))))"
    using a b c by (auto simp: try_block_def Let_def)
  with c show ?thesis by blast
qed

text \<open>When a step rejects, its rejection value reaches the handler.\<close>

lemma try_block_fail:
  assumes "rejection_of env = Some e"
  shows "try_block env = Inl e"
proof (cases "first_rejected (toFile_order env) (map (toFile env) strategy_indices)")
  case (Some e')
  with assms have "e' = e" by (simp add: rejection_of_def)
  with Some show ?thesis by (simp add: try_block_def promise_all_def)
next
  case None
  with assms have r: "first_rejected (recognize_order env)
      (map (recognize_tmp env) strategy_indices) = Some e"
    by (simp add: rejection_of_def)
  show ?thesis using None r by (simp add: try_block_def promise_all_def)
qed

lemma outcome_usable:
  assumes "p \<noteq> []" "p \<in> files env"
  shows "fst (extractTextFromImage env (Some p)) =
     (case rejection_of env of
        None \<Rightarrow> try_block env
      | Some e \<Rightarrow> catch_block env e)"
proof (cases "rejection_of env")
  case None
  from try_block_ok[OF this] obtain r where "try_block env = Inr r" by (auto split: if_splits)
  then show ?thesis using assms None by (simp add: extractTextFromImage_def Let_def)
next
  case (Some e)
  from try_block_fail[OF this] show ?thesis using assms Some
    by (simp add: extractTextFromImage_def Let_def)
qed

lemma finally_block_eq:
  "finally_block env tmps fs = fs - {f \<in> set tmps. \<not> unlink_throws env f}"
  unfolding finally_block_def
  by (induction tmps arbitrary: fs) auto

lemma hello_clean: "buildCleanText ex_hello = js ''hello world''"
  by (simp add: ex_hello_def mk_word_def MIN_CONF_def goodWords_def buildCleanText_def
      clean_line_def js_def js_trim_def is_space_def List.map_filter_def sp_def)

lemma short_clean: "buildCleanText ex_short = js ''a''"
  by (simp add: ex_short_def mk_word_def MIN_CONF_def goodWords_def buildCleanText_def
      clean_line_def js_def js_trim_def is_space_def List.map_filter_def sp_def)

lemma ex_img_simps: "ex_img \<noteq> []" "ex_img \<in> files ex_env_ok"
  by (simp_all add: ex_img_def ex_env_ok_def js_def)

lemma fl_round_99: "fl_round 99 = 99"
  by (simp add: fl_round_def ulp_def round_half_even_def bit_length.simps infinity_def Let_def)

lemma fl_round_92: "fl_round 92 = 92"
  by (simp add: fl_round_def ulp_def round_half_even_def bit_length.simps infinity_def Let_def)

lemma fl_round_182: "fl_round 182 = 182"
  by (simp add: fl_round_def ulp_def round_half_even_def bit_length.simps infinity_def Let_def)

lemma fl_round_91: "fl_round 91 = 91"
  by (simp add: fl_round_def ulp_def round_half_even_def bit_length.simps infinity_def Let_def)

lemma avgConf_short: "avgConf ex_short = 99"
  by (simp add: avgConf_def ex_short_def mk_word_def fl_add_def fl_div_def fl_round_99 infinity_def)

lemma avgConf_hello: "avgConf ex_hello = 91"
  by (simp add: avgConf_def ex_hello_def mk_word_def fl_add_def fl_div_def fl_round_92 fl_round_182
      fl_round_91 infinity_def)

lemma best_short_pick:
  "pick_best (score_results [ex_short, ex_hello, ex_hello]) =
     Some \<lparr>sdata = ex_short, score = 99, sname = js ''high-contrast''\<rparr>"
  by (simp add: pick_best_def sort_scored_def score_results_def avgConf_short avgConf_hello
      strategy_names_def upt_rec)

text \<open>What the handler does with the rejection value \<open>e\<close>.\<close>

lemma catch_block_cases:
  "(catch_block env e = Inl v \<longleftrightarrow>
      message_read e = Some v \<or>
      (message_read e = None \<and> (\<exists>e2. recognize_src env = Inl e2 \<and> message_read e2 = Some v)))"
  "(catch_block env e = Inr empty_result \<longleftrightarrow>
      message_read e = None \<and>
      ((\<exists>e2. recognize_src env = Inl e2 \<and> message_read e2 = None) \<or>
       (\<not> isl (recognize_src env) \<and>
        (case dtext (projr (recognize_src env)) of None \<Rightarrow> True | Some t \<Rightarrow> js_trim t = []))))"
  by (auto simp: catch_block_def Let_def with_raw_not_empty split: sum.splits option.splits)

text \<open>
  C2, as stated, fails. In \<open>ex_env_one_fails\<close> every preprocessing succeeds and the
  second and third recognition return the transcript \<^verbatim>\<open>hello world\<close>; the first
  recognition fails, and so does the fallback. The result is the empty result, not the
  best surviving one.
\<close>

theorem fan_out_aborted_counterexample:
  "toFile ex_env_one_fails 0 = Inr () \<and> toFile ex_env_one_fails 1 = Inr () \<and>
   toFile ex_env_one_fails 2 = Inr () \<and>
   recognize_tmp ex_env_one_fails 1 = Inr ex_hello \<and>
   recognize_tmp ex_env_one_fails 2 = Inr ex_hello \<and>
   buildCleanText ex_hello = js ''hello world'' \<and>
   fst (extractTextFromImage ex_env_one_fails (Some ex_img)) = Inr empty_result"
proof -
  have "rejection_of ex_env_one_fails = Some (JsError (js ''engine''))"
    by (simp add: rejection_of_def first_rejected_def ex_env_one_fails_def ex_env_ok_def
        strategy_indices_eq upt_rec)
  moreover have "catch_block ex_env_one_fails (JsError (js ''engine'')) = Inr empty_result"
    by (simp add: catch_block_def ex_env_one_fails_def ex_env_ok_def)
  moreover have "ex_img \<noteq> []" "ex_img \<in> files ex_env_one_fails"
    using ex_img_simps by (simp_all add: ex_env_one_fails_def)
  ultimately have "fst (extractTextFromImage ex_env_one_fails (Some ex_img)) = Inr empty_result"
    by (simp add: outcome_usable)
  then show ?thesis by (simp add: hello_clean) (simp add: ex_env_one_fails_def ex_env_ok_def)
qed

text \<open>
  C2, amended. The three pipelines are awaited together. When the preprocessing or the
  recognition of a recipe fails, the results of the other recipes are not scored: the
  rejection value \<open>e\<close> of a failed step reaches the handler, which reads its message.
  When that read throws (as it does on \<^verbatim>\<open>undefined\<close> and \<^verbatim>\<open>null\<close>, with a
  \<^verbatim>\<open>TypeError\<close>), the function rejects with what it throws. Otherwise the function
  returns what the single recognition pass on the unprocessed image gives: the parse of
  its trimmed text, the empty result when that pass yields no text or fails; when the
  pass fails with a value whose message cannot be read, the function again rejects.
\<close>

theorem fan_out_failure_falls_back:
  assumes "p \<noteq> []" "p \<in> files env" "i \<in> set strategy_indices"
    "isl (toFile env i) \<or> isl (recognize_tmp env i)"
  shows "\<exists>e. rejection_of env = Some e \<and>
     (\<exists>j\<in>set strategy_indices. toFile env j = Inl e \<or> recognize_tmp env j = Inl e) \<and>
     fst (extractTextFromImage env (Some p)) =
       (case message_read e of
          Some v \<Rightarrow> Inl v
        | None \<Rightarrow>
           (case recognize_src env of
              Inl e2 \<Rightarrow> (case message_read e2 of Some v \<Rightarrow> Inl v | None \<Rightarrow> Inr empty_result)
            | Inr d \<Rightarrow>
               (case dtext d of
                  None \<Rightarrow> Inr empty_result
                | Some t \<Rightarrow>
                    if js_trim t = [] then Inr empty_result
                    else Inr (with_raw (js_trim t) (parseOcrText (js_trim t))))))"
proof -
  have "rejection_of env \<noteq> None"
    using assms(3,4) by (auto simp: rejection_of_None_iff)
  then obtain e where e: "rejection_of env = Some e" by blast
  have "fst (extractTextFromImage env (Some p)) = catch_block env e"
    using outcome_usable[OF assms(1,2)] e by simp
  then have "fst (extractTextFromImage env (Some p)) =
       (case message_read e of
          Some v \<Rightarrow> Inl v
        | None \<Rightarrow>
           (case recognize_src env of
              Inl e2 \<Rightarrow> (case message_read e2 of Some v \<Rightarrow> Inl v | None \<Rightarrow> Inr empty_result)
            | Inr d \<Rightarrow>
               (case dtext d of
                  None \<Rightarrow> Inr empty_result
                | Some t \<Rightarrow>
                    if js_trim t = [] then Inr empty_result
                    else Inr (with_raw (js_trim t) (parseOcrText (js_trim t))))))"
    by (simp add: catch_block_def Let_def split: sum.splits option.splits)
  with e rejection_of_Some[OF e] show ?thesis by blast
qed

theorem fan_out_failure_falls_back_witness:
  "ex_img \<noteq> [] \<and> ex_img \<in> files ex_env_fallback \<and> 1 \<in> set strategy_indices \<and>
   isl (toFile ex_env_fallback 1) \<and>
   recognize_tmp ex_env_fallback 0 = Inr ex_hello \<and>
   rejection_of ex_env_fallback = Some (JsError (js ''sharp'')) \<and>
   fst (extractTextFromImage ex_env_fallback (Some ex_img)) =
     Inr (with_raw (js ''tea'') (parseOcrText (js ''tea'')))"
proof -
  have h: "ex_img \<noteq> []" "ex_img \<in> files ex_env_fallback" "1 \<in> set strategy_indices"
    "isl (toFile ex_env_fallback 1) \<or> isl (recognize_tmp ex_env_fallback 1)"
    using ex_img_simps by (simp_all add: ex_env_fallback_def strategy_indices_eq)
  have t: "js_trim (js '' tea '') = js ''tea''" by (simp add: js_def js_trim_def is_space_def)
  have ne: "js ''tea'' \<noteq> []" by (simp add: js_def)
  have src: "recognize_src ex_env_fallback = Inr ex_tea" "dtext ex_tea = Some (js '' tea '')"
    "recognize_tmp ex_env_fallback 0 = Inr ex_hello" "isl (toFile ex_env_fallback 1)"
    by (simp_all add: ex_env_fallback_def ex_env_ok_def ex_tea_def)
  have r: "rejection_of ex_env_fallback = Some (JsError (js ''sharp''))"
    by (simp add: rejection_of_def first_rejected_def ex_env_fallback_def ex_env_ok_def
        strategy_indices_eq upt_rec)
  from fan_out_failure_falls_back[OF h] h(1,2,3) src t ne r show ?thesis by auto
qed

lemma best_short_ok: "rejection_of ex_env_best_short = None"
  by (simp add: rejection_of_None_iff strategy_indices_eq ex_env_best_short_def ex_env_ok_def)

lemma best_short_results:
  "map (\<lambda>i. projr (recognize_tmp ex_env_best_short i)) strategy_indices =
      [ex_short, ex_hello, ex_hello]"
  by (simp add: strategy_indices_eq ex_env_best_short_def ex_env_ok_def)

lemma short_length: "length (js_trim (js ''a'')) < 2"
  by (simp add: js_def js_trim_def is_space_def)

lemma nullish_rejection: "rejection_of ex_env_nullish = Some Nullish"
  by (simp add: rejection_of_def first_rejected_def ex_env_nullish_def ex_env_ok_def
      strategy_indices_eq upt_rec)

text \<open>
  C3, as stated, fails, in both of its parts. In \<open>ex_env_best_short\<close> the path exists
  and every recipe succeeds; the second recipe yields a cleaned transcript of 11
  characters, but the first scores higher with a transcript of one character, and the
  function returns the empty result. In \<open>ex_env_nullish\<close> the second preprocessing
  rejects with \<^verbatim>\<open>undefined\<close>; the handler reads the message of that value, and the
  function throws a \<^verbatim>\<open>TypeError\<close> to its caller.
\<close>

theorem empty_result_best_short_counterexample:
  "ex_img \<noteq> [] \<and> ex_img \<in> files ex_env_best_short \<and> toFile ex_env_best_short 1 = Inr () \<and>
   recognize_tmp ex_env_best_short 1 = Inr ex_hello \<and>
   length (js_trim (buildCleanText ex_hello)) = 11 \<and>
   fst (extractTextFromImage ex_env_best_short (Some ex_img)) = Inr empty_result \<and>
   ex_img \<in> files ex_env_nullish \<and> toFile ex_env_nullish 1 = Inl Nullish \<and>
   fst (extractTextFromImage ex_env_nullish (Some ex_img)) = Inl TypeError"
proof -
  have i: "ex_img \<noteq> []" "ex_img \<in> files ex_env_best_short" "ex_img \<in> files ex_env_nullish"
    using ex_img_simps by (simp_all add: ex_env_best_short_def ex_env_nullish_def)
  from try_block_ok[OF best_short_ok]
  have "try_block ex_env_best_short = Inr empty_result"
    using short_length by (simp add: best_short_results best_short_pick short_clean)
  then have 1: "fst (extractTextFromImage ex_env_best_short (Some ex_img)) = Inr empty_result"
    using i best_short_ok by (simp add: outcome_usable)
  have 2: "length (js_trim (buildCleanText ex_hello)) = 11"
    by (simp add: hello_clean js_def js_trim_def is_space_def)
  have 3: "fst (extractTextFromImage ex_env_nullish (Some ex_img)) = Inl TypeError"
    using i nullish_rejection by (simp add: outcome_usable catch_block_def)
  show ?thesis using i 1 2 3
    by (simp add: ex_env_best_short_def ex_env_nullish_def ex_env_ok_def)
qed

text \<open>The outcomes of a call, with the result the selector picks.\<close>

lemma extract_outcome:
  "(fst (extractTextFromImage env ip) = Inl v \<longleftrightarrow>
      (\<exists>p. ip = Some p \<and> p \<noteq> [] \<and> p \<in> files env) \<and>
      (\<exists>e. rejection_of env = Some e \<and>
         (message_read e = Some v \<or>
          (message_read e = None \<and>
           (\<exists>e2. recognize_src env = Inl e2 \<and> message_read e2 = Some v))))) \<and>
   (rejection_of env = None \<longleftrightarrow>
      (\<forall>i\<in>set strategy_indices. \<not> isl (toFile env i) \<and> \<not> isl (recognize_tmp env i))) \<and>
   (fst (extractTextFromImage env ip) = Inr empty_result \<longleftrightarrow>
      (ip = None \<or> ip = Some [] \<or> (\<exists>p. ip = Some p \<and> p \<notin> files env)) \<or>
      ((\<forall>i\<in>set strategy_indices. \<not> isl (toFile env i) \<and> \<not> isl (recognize_tmp env i)) \<and>
       (\<exists>best. pick_best (score_results (map (\<lambda>i. projr (recognize_tmp env i)) strategy_indices)) =
           Some best \<and>
           length (js_trim (buildCleanText (sdata best))) < 2)) \<or>
      ((\<exists>i\<in>set strategy_indices. isl (toFile env i) \<or> isl (recognize_tmp env i)) \<and>
       (\<exists>e. rejection_of env = Some e \<and> message_read e = None) \<and>
       ((\<exists>e2. recognize_src env = Inl e2 \<and> message_read e2 = None) \<or>
        (\<not> isl (recognize_src env) \<and>
         (case dtext (projr (recognize_src env)) of None \<Rightarrow> True | Some t \<Rightarrow> js_trim t = [])))))"
proof (cases "ip = None \<or> ip = Some [] \<or> (\<exists>p. ip = Some p \<and> p \<notin> files env)")
  case True
  then have "fst (extractTextFromImage env ip) = Inr empty_result"
    by (auto simp: extractTextFromImage_def)
  with True show ?thesis by (auto simp: rejection_of_None_iff)
next
  case False
  then obtain p where p: "ip = Some p" "p \<noteq> []" "p \<in> files env" by (cases ip) auto
  note out = outcome_usable[OF p(2,3)]
  show ?thesis
  proof (cases "rejection_of env")
    case None
    then have ok: "\<forall>i\<in>set strategy_indices. \<not> isl (toFile env i) \<and> \<not> isl (recognize_tmp env i)"
      by (simp add: rejection_of_None_iff)
    from try_block_ok[OF None] obtain best where
      b: "pick_best (score_results (map (\<lambda>i. projr (recognize_tmp env i)) strategy_indices)) = Some
          best"
         "try_block env =
            (if length (js_trim (buildCleanText (sdata best))) < 2 then Inr empty_result
             else Inr (with_raw (buildCleanText (sdata best))
                 (parseOcrText (buildCleanText (sdata best)))))"
      by blast
    have o: "fst (extractTextFromImage env ip) = try_block env" using out None p(1) by simp
    show ?thesis using False ok b o None p by (auto simp: with_raw_not_empty)
  next
    case (Some e')
    then have nok: "\<exists>i\<in>set strategy_indices. isl (toFile env i) \<or> isl (recognize_tmp env i)"
      using rejection_of_None_iff[of env] by auto
    have o: "fst (extractTextFromImage env ip) = catch_block env e'" using out Some p(1) by simp
    have ne: "rejection_of env \<noteq> None" using Some by simp
    show ?thesis
      unfolding o catch_block_cases
      using False nok Some p ne rejection_of_None_iff[of env]
      by auto
  qed
qed

text \<open>
  C3, amended. \<open>extractTextFromImage\<close> throws to its caller in one case only: a step
  has failed, and reading the message of the rejection value that reaches the handler,
  or of the one the fallback pass fails with, throws (as it does on \<^verbatim>\<open>undefined\<close>
  and \<^verbatim>\<open>null\<close>, with a \<^verbatim>\<open>TypeError\<close>). In every other case it returns a result.
  The result is the empty result exactly when the path is missing, empty or names no
  existing file; or every recipe succeeds and the cleaned transcript of the best-scoring
  recipe (no recipe has a higher average confidence, and every recipe declared before it
  has a lower one) has a trimmed length below 2; or some recipe fails and the fallback
  pass on the unprocessed image fails or yields no text.
\<close>

theorem extract_empty_result_iff:
  "(fst (extractTextFromImage env ip) = Inl v \<longleftrightarrow>
      (\<exists>p. ip = Some p \<and> p \<noteq> [] \<and> p \<in> files env) \<and>
      (\<exists>e. rejection_of env = Some e \<and>
         (message_read e = Some v \<or>
          (message_read e = None \<and>
           (\<exists>e2. recognize_src env = Inl e2 \<and> message_read e2 = Some v))))) \<and>
   (rejection_of env = None \<longleftrightarrow>
      (\<forall>i\<in>set strategy_indices. \<not> isl (toFile env i) \<and> \<not> isl (recognize_tmp env i))) \<and>
   (fst (extractTextFromImage env ip) = Inr empty_result \<longleftrightarrow>
      (ip = None \<or> ip = Some [] \<or> (\<exists>p. ip = Some p \<and> p \<notin> files env)) \<or>
      ((\<forall>i\<in>set strategy_indices. \<not> isl (toFile env i) \<and> \<not> isl (recognize_tmp env i)) \<and>
       (\<exists>i\<in>set strategy_indices.
          (\<forall>j\<in>set strategy_indices.
              avgConf (projr (recognize_tmp env j)) \<le> avgConf (projr (recognize_tmp env i))) \<and>
          (\<forall>j\<in>set strategy_indices.
              j < i \<longrightarrow> avgConf (projr (recognize_tmp env j)) < avgConf
                  (projr (recognize_tmp env i))) \<and>
          length (js_trim (buildCleanText (projr (recognize_tmp env i)))) < 2)) \<or>
      ((\<exists>i\<in>set strategy_indices. isl (toFile env i) \<or> isl (recognize_tmp env i)) \<and>
       (\<exists>e. rejection_of env = Some e \<and> message_read e = None) \<and>
       ((\<exists>e2. recognize_src env = Inl e2 \<and> message_read e2 = None) \<or>
        (\<not> isl (recognize_src env) \<and>
         (case dtext (projr (recognize_src env)) of None \<Rightarrow> True | Some t \<Rightarrow> js_trim t = [])))))"
  using extract_outcome[of env ip v]
  unfolding best_recipe_iff[of "\<lambda>i. projr (recognize_tmp env i)" "\<lambda>d. length
      (js_trim (buildCleanText d)) < 2"]
  .


theorem extract_empty_result_iff_witness:
  "avgConf (projr (recognize_tmp ex_env_best_short 0)) = 99 \<and>
   avgConf (projr (recognize_tmp ex_env_best_short 1)) = 91 \<and>
   avgConf (projr (recognize_tmp ex_env_best_short 2)) = 91 \<and>
   length (js_trim (buildCleanText (projr (recognize_tmp ex_env_best_short 0)))) < 2 \<and>
   length (js_trim (buildCleanText (projr (recognize_tmp ex_env_best_short 1)))) = 11 \<and>
   fst (extractTextFromImage ex_env_best_short (Some ex_img)) = Inr empty_result \<and>
   rejection_of ex_env_nullish = Some Nullish \<and>
   fst (extractTextFromImage ex_env_nullish (Some ex_img)) = Inl TypeError"
proof -
  have r: "projr (recognize_tmp ex_env_best_short 0) = ex_short"
    "projr (recognize_tmp ex_env_best_short 1) = ex_hello"
    "projr (recognize_tmp ex_env_best_short 2) = ex_hello"
    by (simp_all add: ex_env_best_short_def ex_env_ok_def)
  have 1: "\<forall>j\<in>set strategy_indices.
       avgConf (projr (recognize_tmp ex_env_best_short j)) \<le> avgConf
           (projr (recognize_tmp ex_env_best_short 0))"
    using r by (simp add: strategy_indices_eq avgConf_short avgConf_hello)
  have 2: "\<forall>j\<in>set strategy_indices. j < 0 \<longrightarrow>
       avgConf (projr (recognize_tmp ex_env_best_short j)) < avgConf
           (projr (recognize_tmp ex_env_best_short 0))"
    by simp
  have 3: "length (js_trim (buildCleanText (projr (recognize_tmp ex_env_best_short 0)))) < 2"
    by (simp add: r short_clean short_length)
  have 4: "\<forall>i\<in>set strategy_indices. \<not> isl (toFile ex_env_best_short i) \<and>
      \<not> isl (recognize_tmp ex_env_best_short i)"
    using best_short_ok by (simp add: rejection_of_None_iff)
  have 0: "0 \<in> set strategy_indices" by (simp add: strategy_indices_eq)
  from extract_empty_result_iff[of ex_env_best_short "Some ex_img"] 0 1 2 3 4
  have 5: "fst (extractTextFromImage ex_env_best_short (Some ex_img)) = Inr empty_result" by blast
  have "ex_img \<noteq> []" "ex_img \<in> files ex_env_nullish"
    using ex_img_simps by (simp_all add: ex_env_nullish_def)
  with extract_empty_result_iff[of ex_env_nullish "Some ex_img" TypeError] nullish_rejection
  have 6: "fst (extractTextFromImage ex_env_nullish (Some ex_img)) = Inl TypeError" by simp
  have "length (js_trim (js ''hello world'')) = 11" by (simp add: js_def js_trim_def is_space_def)
  then have 7: "length (js_trim (buildCleanText (projr (recognize_tmp ex_env_best_short 1)))) = 11"
    unfolding r hello_clean .
  have 8: "avgConf (projr (recognize_tmp ex_env_best_short 0)) = 99"
    "avgConf (projr (recognize_tmp ex_env_best_short 1)) = 91"
    "avgConf (projr (recognize_tmp ex_env_best_short 2)) = 91"
    unfolding r by (rule avgConf_short avgConf_hello)+
  from 3 5 6 7 8 nullish_rejection show ?thesis by blast
qed

text \<open>
  C8, as stated, fails. In \<open>ex_env_unlink\<close> every recipe succeeds and
  \<^verbatim>\<open>fs.unlinkSync\<close> throws on the first temporary: the \<^verbatim>\<open>catch\<close> around it
  swallows the exception and the file is still there when the function returns.
\<close>

theorem cleanup_unlink_fails_counterexample:
  "toFile ex_env_unlink 0 = Inr () \<and> tmp_on_disk ex_env_unlink 0 \<and>
   unlink_throws ex_env_unlink (tmpPath ex_env_unlink 0) \<and>
   tmpPath ex_env_unlink 0 \<in> snd (extractTextFromImage ex_env_unlink (Some ex_img))"
proof -
  have "ex_img \<noteq> []" "ex_img \<in> files ex_env_unlink"
    using ex_img_simps by (simp_all add: ex_env_unlink_def)
  then have "snd (extractTextFromImage ex_env_unlink (Some ex_img)) =
      (files ex_env_unlink \<union> set (map (tmpPath ex_env_unlink)
          (filter (tmp_on_disk ex_env_unlink) strategy_indices)))
        - {f \<in> set (map (tmpPath ex_env_unlink) strategy_indices). \<not> unlink_throws ex_env_unlink f}"
    by (simp add: extractTextFromImage_def Let_def finally_block_eq)
  then show ?thesis
    by (simp add: ex_env_unlink_def ex_env_ok_def strategy_indices_eq)
qed

text \<open>
  C8, amended. On the early return for a missing image no file is touched. On every other
  exit path the \<^verbatim>\<open>finally\<close> block has run when the function returns: a temporary of a
  recipe exists then only if deleting it failed (the failure is swallowed), and no other
  file has been created or deleted.
\<close>

theorem cleanup_best_effort:
  "(ip = None \<or> ip = Some [] \<or> (\<exists>p. ip = Some p \<and> p \<notin> files env) \<longrightarrow>
      snd (extractTextFromImage env ip) = files env) \<and>
   ((\<exists>p. ip = Some p \<and> p \<noteq> [] \<and> p \<in> files env) \<longrightarrow>
      (\<forall>i\<in>set strategy_indices.
          tmpPath env i \<in> snd (extractTextFromImage env ip) \<longrightarrow> unlink_throws env (tmpPath env i)) \<and>
      (\<forall>f. f \<notin> tmpPath env ` set strategy_indices \<longrightarrow>
          (f \<in> snd (extractTextFromImage env ip) \<longleftrightarrow> f \<in> files env)))"
proof (intro conjI impI)
  assume "ip = None \<or> ip = Some [] \<or> (\<exists>p. ip = Some p \<and> p \<notin> files env)"
  then show "snd (extractTextFromImage env ip) = files env"
    by (auto simp: extractTextFromImage_def)
next
  assume "\<exists>p. ip = Some p \<and> p \<noteq> [] \<and> p \<in> files env"
  then obtain p where p: "ip = Some p" "p \<noteq> []" "p \<in> files env" by blast
  let ?tmp = "map (tmpPath env) strategy_indices"
  let ?written = "set (map (tmpPath env) (filter (tmp_on_disk env) strategy_indices))"
  have left: "snd (extractTextFromImage env ip) =
      (files env \<union> ?written) - {f \<in> set ?tmp. \<not> unlink_throws env f}"
    using p by (simp add: extractTextFromImage_def Let_def finally_block_eq)
  show "\<forall>i\<in>set strategy_indices.
      tmpPath env i \<in> snd (extractTextFromImage env ip) \<longrightarrow> unlink_throws env (tmpPath env i)"
    unfolding left by auto
  show "\<forall>f. f \<notin> tmpPath env ` set strategy_indices \<longrightarrow>
      (f \<in> snd (extractTextFromImage env ip) \<longleftrightarrow> f \<in> files env)"
    unfolding left by auto
qed

theorem cleanup_best_effort_witness:
  "snd (extractTextFromImage ex_env_ok None) = files ex_env_ok \<and>
   ex_img \<noteq> [] \<and> ex_img \<in> files ex_env_ok \<and>
   tmp_on_disk ex_env_ok 0 \<and> tmp_on_disk ex_env_ok 1 \<and> tmp_on_disk ex_env_ok 2 \<and>
   tmpPath ex_env_ok 0 \<notin> snd (extractTextFromImage ex_env_ok (Some ex_img)) \<and>
   tmpPath ex_env_ok 1 \<notin> snd (extractTextFromImage ex_env_ok (Some ex_img)) \<and>
   tmpPath ex_env_ok 2 \<notin> snd (extractTextFromImage ex_env_ok (Some ex_img))"
proof -
  have u: "\<And>f. \<not> unlink_throws ex_env_ok f" "tmp_on_disk ex_env_ok 0" "tmp_on_disk ex_env_ok 1"
    "tmp_on_disk ex_env_ok 2" by (simp_all add: ex_env_ok_def)
  have i: "0 \<in> set strategy_indices" "1 \<in> set strategy_indices" "2 \<in> set strategy_indices"
    by (simp_all add: strategy_indices_eq)
  from cleanup_best_effort[of None ex_env_ok] cleanup_best_effort[of "Some ex_img" ex_env_ok]
      ex_img_simps u i
  show ?thesis by blast
qed

end
